theory Spec2Isabelle
  imports Main
begin

section \<open>JavaScript strings\<close>

text \<open>
  A JavaScript string is a sequence of UTF-16 code units. The model keeps the code units
  0..255 (type \<open>char\<close>); every literal of the two source files that the speech pipeline
  compares against is ASCII. The predicates below are the character classes of the
  regular expressions and of \<^verbatim>\<open>String.prototype.trim\<close>, restricted to that range.
\<close>

definition isWhiteSpace :: "char \<Rightarrow> bool" where
  \<comment> \<open>\<^verbatim>\<open>\s\<close> and the characters removed by \<^verbatim>\<open>trim()\<close>: TAB, LF, VT, FF, CR, SP, NBSP.\<close>
  "isWhiteSpace c \<longleftrightarrow>
     c = CHR 0x09 \<or> c = CHR 0x0A \<or> c = CHR 0x0B \<or> c = CHR 0x0C \<or> c = CHR 0x0D
     \<or> c = CHR '' '' \<or> c = CHR 0xA0"

definition isLineTerminator :: "char \<Rightarrow> bool" where
  \<comment> \<open>the characters that \<^verbatim>\<open>.\<close> does not match: LF and CR.\<close>
  "isLineTerminator c \<longleftrightarrow> c = CHR 0x0A \<or> c = CHR 0x0D"

definition isAsciiLetter :: "char \<Rightarrow> bool" where
  \<comment> \<open>\<^verbatim>\<open>[A-Za-z]\<close>\<close>
  "isAsciiLetter c \<longleftrightarrow>
     (let n = (of_char c :: nat) in (65 \<le> n \<and> n \<le> 90) \<or> (97 \<le> n \<and> n \<le> 122))"

definition trim :: "string \<Rightarrow> string" where
  "trim s = rev (dropWhile isWhiteSpace (rev (dropWhile isWhiteSpace s)))"

definition lowerChar :: "char \<Rightarrow> char" where
  \<comment> \<open>\<^verbatim>\<open>toLowerCase\<close> on one code unit: A-Z and the Latin-1 capitals (0xC0-0xDE but 0xD7).\<close>
  "lowerChar c =
     (let n = (of_char c :: nat)
      in if (65 \<le> n \<and> n \<le> 90) \<or> (192 \<le> n \<and> n \<le> 222 \<and> n \<noteq> 215)
         then char_of (n + 32) else c)"

definition toLowerCase :: "string \<Rightarrow> string" where
  "toLowerCase s = map lowerChar s"

fun startsWith :: "string \<Rightarrow> string \<Rightarrow> bool" where
  "startsWith s [] = True"
| "startsWith [] (p # ps) = False"
| "startsWith (c # cs) (p # ps) = (c = p \<and> startsWith cs ps)"

fun includes_str :: "string \<Rightarrow> string \<Rightarrow> bool" where
  \<comment> \<open>\<^verbatim>\<open>s.includes(sub)\<close>\<close>
  "includes_str [] sub = (sub = [])"
| "includes_str (c # cs) sub = (startsWith (c # cs) sub \<or> includes_str cs sub)"

fun split_lines :: "string \<Rightarrow> string list" where
  \<comment> \<open>\<^verbatim>\<open>text.split('\n')\<close>: never empty, a trailing LF gives a last empty line.\<close>
  "split_lines [] = [[]]"
| "split_lines (c # cs) =
     (if c = CHR 0x0A then [] # split_lines cs
      else (case split_lines cs of [] \<Rightarrow> [[c]] | l # ls \<Rightarrow> (c # l) # ls))"

section \<open>The segmenter of services/geminiService.ts\<close>

record DialogueBlock =
  speaker :: string
  btext :: string

definition MAX_CHAR_LIMIT :: nat where
  "MAX_CHAR_LIMIT = 1500"

definition isStar :: "char \<Rightarrow> bool" where
  "isStar c \<longleftrightarrow> c = CHR ''*''"

definition isNameChar :: "char \<Rightarrow> bool" where
  \<comment> \<open>\<^verbatim>\<open>[A-Za-z\s]\<close>\<close>
  "isNameChar c \<longleftrightarrow> isAsciiLetter c \<or> isWhiteSpace c"

text \<open>
  \<^verbatim>\<open>line.match(/^(\*{0,2})([A-Za-z\s]+)(\*{0,2}):\s*(.*)$/)\<close>, giving groups 2 and 4.
  Every quantifier is greedy and each class excludes the character that must follow it,
  so backtracking never finds a second way to match: the leading stars are all the stars
  there are (at most two), the name is the longest run of name characters, the stars after
  it are all of them (at most two), a colon follows, the white space after the colon is
  the longest run, and group 4 is the rest of the line, which must be free of line
  terminators for \<^verbatim>\<open>$\<close> to be reached.
\<close>

definition speakerRegex :: "string \<Rightarrow> (string \<times> string) option" where
  "speakerRegex line =
     (let stars1 = takeWhile isStar line; r1 = dropWhile isStar line;
          name = takeWhile isNameChar r1; r2 = dropWhile isNameChar r1;
          stars2 = takeWhile isStar r2; r3 = dropWhile isStar r2
      in if length stars1 > 2 \<or> name = [] \<or> length stars2 > 2 then None
         else (case r3 of
                 [] \<Rightarrow> None
               | c # r4 \<Rightarrow>
                   if c \<noteq> CHR '':'' then None
                   else (let rest = dropWhile isWhiteSpace r4
                         in if list_ex isLineTerminator rest then None
                            else Some (name, rest))))"

definition isTerminal :: "char \<Rightarrow> bool" where
  \<comment> \<open>\<^verbatim>\<open>[.!?]\<close>\<close>
  "isTerminal c \<longleftrightarrow> c = CHR ''.'' \<or> c = CHR ''!'' \<or> c = CHR ''?''"

definition isQuote :: "char \<Rightarrow> bool" where
  \<comment> \<open>\<^verbatim>\<open>["']\<close>\<close>
  "isQuote c \<longleftrightarrow> c = CHR 0x22 \<or> c = CHR 0x27"

text \<open>
  \<^verbatim>\<open>currentBuffer.match(/[^.!?]+[.!?]+["']?|[^.!?]+$/g)\<close>: all matches, left to right.
  At a position holding a terminal character neither alternative matches and the search
  moves one character on. Otherwise the longest run of other characters is taken; when
  terminal characters follow, the first alternative takes all of them and one character
  of the optional class \<open>closing\<close> if it comes next; when the run reaches the end of the
  string the second alternative takes it. The other source file uses the same expression
  without the optional class, so the class is an argument.
\<close>

function sentenceMatches :: "(char \<Rightarrow> bool) \<Rightarrow> string \<Rightarrow> string list" where
  "sentenceMatches closing [] = []"
| "sentenceMatches closing (c # cs) =
     (if isTerminal c then sentenceMatches closing cs
      else (let body = takeWhile (\<lambda>x. \<not> isTerminal x) (c # cs);
                r1 = dropWhile (\<lambda>x. \<not> isTerminal x) (c # cs)
            in if r1 = [] then [body]
               else (let marks = takeWhile isTerminal r1; r2 = dropWhile isTerminal r1
                     in (case r2 of
                           [] \<Rightarrow> [body @ marks]
                         | q # r3 \<Rightarrow>
                             if closing q then (body @ marks @ [q]) # sentenceMatches closing r3
                             else (body @ marks) # sentenceMatches closing r2))))"
  by pat_completeness auto
termination
proof (relation "measure (\<lambda>(closing, s). length s)", goal_cases)
  case 1
  show ?case by simp
next
  case (2 closing c cs)
  show ?case by simp
next
  case (3 closing c cs body r1 marks r2 q r3)
  then have "q # r3 = dropWhile isTerminal (dropWhile (\<lambda>x. \<not> isTerminal x) cs)"
    by simp
  then have "Suc (length r3) = length (dropWhile isTerminal (dropWhile (\<lambda>x. \<not> isTerminal x) cs))"
    by (metis length_Cons)
  also have "\<dots> \<le> length (dropWhile (\<lambda>x. \<not> isTerminal x) cs)"
    by (rule length_dropWhile_le)
  also have "\<dots> \<le> length cs"
    by (rule length_dropWhile_le)
  finally show ?case by simp
next
  case (4 closing c cs body r1 marks r2 q r3)
  then have "r2 = dropWhile isTerminal (dropWhile (\<lambda>x. \<not> isTerminal x) cs)"
    by simp
  then have "length r2 \<le> length (dropWhile (\<lambda>x. \<not> isTerminal x) cs)"
    by (simp add: length_dropWhile_le)
  also have "\<dots> \<le> length cs"
    by (rule length_dropWhile_le)
  finally show ?case by simp
qed

text \<open>
  The loop of \<^verbatim>\<open>pushBuffer\<close> over the sentences: the blocks pushed inside the loop, in
  order, and the chunk left in \<^verbatim>\<open>tempChunk\<close> when the loop ends.
\<close>

fun packSentences :: "string \<Rightarrow> string \<Rightarrow> string list \<Rightarrow> DialogueBlock list \<times> string" where
  "packSentences sp tempChunk [] = ([], tempChunk)"
| "packSentences sp tempChunk (sentence # rest) =
     (if length (tempChunk @ sentence) > MAX_CHAR_LIMIT
      then (let (pushed, final) = packSentences sp sentence rest
            in (\<lparr>speaker = sp, btext = trim tempChunk\<rparr> # pushed, final))
      else packSentences sp (tempChunk @ sentence) rest)"

definition sentencesOf :: "string \<Rightarrow> string list" where
  \<comment> \<open>\<^verbatim>\<open>currentBuffer.match(...) || [currentBuffer]\<close>: no match at all gives \<^verbatim>\<open>null\<close>.\<close>
  "sentencesOf buf = (case sentenceMatches isQuote buf of [] \<Rightarrow> [buf] | s # ss \<Rightarrow> s # ss)"

text \<open>
  \<^verbatim>\<open>pushBuffer\<close> as the list of blocks it appends for a speaker and a buffer. It also
  empties \<^verbatim>\<open>currentBuffer\<close>, which every caller overwrites or no longer reads.
\<close>

definition pushBuffer :: "string \<Rightarrow> string \<Rightarrow> DialogueBlock list" where
  "pushBuffer currentSpeaker currentBuffer =
     (if trim currentBuffer \<noteq> [] then
        (if length currentBuffer > MAX_CHAR_LIMIT then
           (let (pushed, tempChunk) = packSentences currentSpeaker [] (sentencesOf currentBuffer)
            in pushed @ (if trim tempChunk \<noteq> []
                         then [\<lparr>speaker = currentSpeaker, btext = trim tempChunk\<rparr>] else []))
         else [\<lparr>speaker = currentSpeaker, btext = trim currentBuffer\<rparr>])
      else [])"

definition canonicalSpeaker :: "string \<Rightarrow> string" where
  "canonicalSpeaker rawName =
     (if includes_str (toLowerCase rawName) ''roberta'' then ''Roberta Erickson''
      else if includes_str (toLowerCase rawName) ''milton'' then ''Milton Dilts''
      else rawName)"

text \<open>
  The loop over the lines: the blocks pushed on the way, and the speaker and buffer after
  the last line.
\<close>

fun parseLines ::
  "string list \<Rightarrow> string \<Rightarrow> string \<Rightarrow> DialogueBlock list \<times> string \<times> string" where
  "parseLines [] currentSpeaker currentBuffer = ([], currentSpeaker, currentBuffer)"
| "parseLines (line # rest) currentSpeaker currentBuffer =
     (case speakerRegex line of
        Some (m2, m4) \<Rightarrow>
          (let pushed = pushBuffer currentSpeaker currentBuffer;
               (more, sp, buf) = parseLines rest (canonicalSpeaker (trim m2)) (m4 @ '' '')
           in (pushed @ more, sp, buf))
      | None \<Rightarrow>
          if trim line \<noteq> []
          then parseLines rest currentSpeaker (currentBuffer @ trim line @ [CHR 0x0A])
          else parseLines rest currentSpeaker currentBuffer)"

definition parseDialogueIntoChunks :: "string \<Rightarrow> DialogueBlock list" where
  "parseDialogueIntoChunks text =
     (let (pushed, sp, buf) = parseLines (split_lines text) ''Narrator'' [];
          blocks = pushed @ pushBuffer sp buf
      in if blocks = [] \<and> trim text \<noteq> [] then pushBuffer ''Narrator'' text else blocks)"

section \<open>The segmenter of the second source file (part_000)\<close>

definition MAX_CHARS :: nat where
  "MAX_CHARS = 1500"

text \<open>
  \<^verbatim>\<open>/^([A-Za-z...  ]+):/i\<close>. As the file is stored, the class holds, besides the ASCII
  letters and the space, the ranges U+00C4 to U+221A; with the \<^verbatim>\<open>i\<close> flag a character
  also matches when its upper-case form is that of a member, which adds U+00C0 to U+00C3
  and U+00B5. (Read through the code page that turns these bytes trail into Latin-1
  letters the class would lack U+00B5, U+00D7 and U+00F7; no statement below depends
  on these three.) Group 1 is the longest run of class characters, and a colon follows it.
  The result is group 1 and \<^verbatim>\<open>line.replace(speakerRegex, '')\<close>, the line after the colon.
\<close>

definition isNameCharB :: "char \<Rightarrow> bool" where
  "isNameCharB c \<longleftrightarrow>
     isAsciiLetter c \<or> c = CHR '' '' \<or> (of_char c :: nat) = 181 \<or> 192 \<le> (of_char c :: nat)"

definition speakerRegexB :: "string \<Rightarrow> (string \<times> string) option" where
  "speakerRegexB line =
     (let name = takeWhile isNameCharB line; r = dropWhile isNameCharB line
      in if name = [] then None
         else (case r of
                 [] \<Rightarrow> None
               | c # after \<Rightarrow> if c = CHR '':'' then Some (name, after) else None))"

fun parseLinesB ::
  "string list \<Rightarrow> string \<Rightarrow> string \<Rightarrow> DialogueBlock list \<times> string \<times> string" where
  "parseLinesB [] currentSpeaker currentBuffer = ([], currentSpeaker, currentBuffer)"
| "parseLinesB (line # rest) currentSpeaker currentBuffer =
     (case speakerRegexB line of
        Some (m1, after) \<Rightarrow>
          (let pushed = (if trim currentBuffer \<noteq> []
                         then [\<lparr>speaker = currentSpeaker, btext = trim currentBuffer\<rparr>] else []);
               (more, sp, buf) = parseLinesB rest (trim m1) (trim after)
           in (pushed @ more, sp, buf))
      | None \<Rightarrow>
          if trim line \<noteq> []
          then parseLinesB rest currentSpeaker (currentBuffer @ '' '' @ trim line)
          else parseLinesB rest currentSpeaker currentBuffer)"

fun packSentencesB :: "string \<Rightarrow> string \<Rightarrow> string list \<Rightarrow> DialogueBlock list \<times> string" where
  "packSentencesB sp temp [] = ([], temp)"
| "packSentencesB sp temp (sentence # rest) =
     (if length (temp @ sentence) > MAX_CHARS
      then (let (pushed, final) = packSentencesB sp sentence rest
            in (\<lparr>speaker = sp, btext = temp\<rparr> # pushed, final))
      else packSentencesB sp (if temp \<noteq> [] then temp @ '' '' @ sentence else sentence) rest)"

definition sentencesOfB :: "string \<Rightarrow> string list" where
  \<comment> \<open>\<^verbatim>\<open>chunk.text.match(/[^.!?]+[.!?]+|[^.!?]+$/g) || [chunk.text]\<close>\<close>
  "sentencesOfB t = (case sentenceMatches (\<lambda>c. False) t of [] \<Rightarrow> [t] | s # ss \<Rightarrow> s # ss)"

definition splitChunkB :: "DialogueBlock \<Rightarrow> DialogueBlock list" where
  "splitChunkB chunk =
     (if length (btext chunk) > MAX_CHARS then
        (let (pushed, temp) = packSentencesB (speaker chunk) [] (sentencesOfB (btext chunk))
         in pushed @ (if temp \<noteq> [] then [\<lparr>speaker = speaker chunk, btext = temp\<rparr>] else []))
      else [chunk])"

definition parseDialogueIntoChunksB :: "string \<Rightarrow> DialogueBlock list" where
  "parseDialogueIntoChunksB text =
     (let (pushed, sp, buf) = parseLinesB (split_lines text) ''Narrator'' [];
          chunks = pushed @ (if trim buf \<noteq> [] then [\<lparr>speaker = sp, btext = trim buf\<rparr>] else [])
      in concat (map splitChunkB chunks))"

section \<open>Stage directions\<close>

definition isOpener :: "char \<Rightarrow> bool" where
  \<comment> \<open>\<^verbatim>\<open>[\(\[]\<close>\<close>
  "isOpener c \<longleftrightarrow> c = CHR ''('' \<or> c = CHR ''[''"

definition isCloser :: "char \<Rightarrow> bool" where
  \<comment> \<open>\<^verbatim>\<open>[\)\]]\<close>\<close>
  "isCloser c \<longleftrightarrow> c = CHR '')'' \<or> c = CHR '']''"

text \<open>
  services/geminiService.ts: \<^verbatim>\<open>block.text.replace(/^\s*(?:[\(\[].*?[\)\]])\s*/, "")\<close>.
  One replacement, at the start of the string only: white space, an opening bracket, the
  shortest run of characters free of line terminators that a closing bracket follows,
  and the white space after it. Without a match the text is returned as it is.
\<close>

definition stripStageDirection :: "string \<Rightarrow> string" where
  "stripStageDirection s =
     (case dropWhile isWhiteSpace s of
        [] \<Rightarrow> s
      | b # r1 \<Rightarrow>
          if \<not> isOpener b then s
          else (case dropWhile (\<lambda>c. \<not> isCloser c \<and> \<not> isLineTerminator c) r1 of
                  [] \<Rightarrow> s
                | c # r2 \<Rightarrow> if isCloser c then dropWhile isWhiteSpace r2 else s))"

text \<open>
  part_000: \<^verbatim>\<open>text.replace(/^\s*[\(\[][^)\]]*[\)\]]\s*/gm, "")\<close>. With the flags
  \<^verbatim>\<open>g\<close> and \<^verbatim>\<open>m\<close> every match is removed, and a match may start at the start of the
  string and after each line terminator. \<open>stageDirectionB\<close> is one match attempt at a
  position: it gives the white space that ends the match and the text after the match.
  \<open>cleanFrom\<close> scans the text; its flag says whether the position is a line start.
\<close>

definition stageDirectionB :: "string \<Rightarrow> (string \<times> string) option" where
  "stageDirectionB s =
     (case dropWhile isWhiteSpace s of
        [] \<Rightarrow> None
      | b # r1 \<Rightarrow>
          if \<not> isOpener b then None
          else (case dropWhile (\<lambda>c. \<not> isCloser c) r1 of
                  [] \<Rightarrow> None
                | c # r2 \<Rightarrow> Some (takeWhile isWhiteSpace r2, dropWhile isWhiteSpace r2)))"

function cleanFrom :: "bool \<Rightarrow> string \<Rightarrow> string" where
  "cleanFrom lineStart [] = []"
| "cleanFrom lineStart (c # cs) =
     (case (if lineStart then stageDirectionB (c # cs) else None) of
        Some (ws, rest) \<Rightarrow> cleanFrom (ws \<noteq> [] \<and> isLineTerminator (last ws)) rest
      | None \<Rightarrow> c # cleanFrom (isLineTerminator c) cs)"
  by pat_completeness auto
termination
proof (relation "measure (\<lambda>(lineStart, s). length s)", goal_cases)
  case 1
  show ?case by simp
next
  case (2 lineStart c cs)
  show ?case by simp
next
  case (3 lineStart c cs x2 ws rest)
  then have m: "stageDirectionB (c # cs) = Some (ws, rest)"
    by (simp split: if_splits)
  then obtain b r1 q r2 where
    r1: "dropWhile isWhiteSpace (c # cs) = b # r1" and
    r2: "dropWhile (\<lambda>c. \<not> isCloser c) r1 = q # r2" and
    rest: "rest = dropWhile isWhiteSpace r2"
    by (auto simp: stageDirectionB_def split: list.splits if_splits)
  have "length rest \<le> length r2"
    unfolding rest by (rule length_dropWhile_le)
  also have "\<dots> < length (dropWhile (\<lambda>c. \<not> isCloser c) r1)"
    unfolding r2 by simp
  also have "\<dots> \<le> length r1"
    by (rule length_dropWhile_le)
  also have "\<dots> < length (dropWhile isWhiteSpace (c # cs))"
    unfolding r1 by simp
  also have "\<dots> \<le> length (c # cs)"
    by (rule length_dropWhile_le)
  finally show ?case by simp
qed

definition cleanTextForSpeech :: "string \<Rightarrow> string" where
  "cleanTextForSpeech text = cleanFrom True text"

section \<open>The world around the pipeline\<close>

text \<open>
  The pipeline talks to the speech model, to the browser's \<^verbatim>\<open>atob\<close>, to the writable
  stream of the output file and to the caller's four callbacks. A run is modelled by the
  list of what it does to them, in order. What the outside answers is fixed by an
  environment: a rejected promise or a thrown exception is \<open>Some message\<close> (or \<open>Inl message\<close>),
  the message being \<^verbatim>\<open>error.message\<close>, empty when the error has none. Requests to the
  model are numbered by the block they are made for, writes of audio by block and by
  position in the response stream. The callbacks are taken not to throw, and the
  \<^verbatim>\<open>delay\<close> between blocks is left out.
\<close>

type_synonym bytes = "nat list"

type_synonym MultiSpeakerConfig = "(string \<times> string) list"
  \<comment> \<open>\<^verbatim>\<open>speakers: { name: string; voice: string }[]\<close>, as pairs of name and voice\<close>

datatype event =
    Generate string string  \<comment> \<open>a request to the model: contents and voiceName\<close>
  | OnChunk bytes
  | OnProgress nat
  | OnComplete
  | OnError string
  | Write bytes  \<comment> \<open>\<^verbatim>\<open>writable.write\<close> that succeeded\<close>
  | Seek nat  \<comment> \<open>\<^verbatim>\<open>writable.seek\<close> that succeeded\<close>
  | Close  \<comment> \<open>\<^verbatim>\<open>writable.close\<close> that succeeded\<close>
  | Warn  \<comment> \<open>\<^verbatim>\<open>console.warn("Could not update WAV header in OPFS", e)\<close>\<close>

record env =
  createWritable_fails :: "string option"
  writePlaceholder_fails :: "string option"
  writeAudio_fails :: "nat \<Rightarrow> nat \<Rightarrow> string option"
  seek_fails :: "string option"
  writeHeader_fails :: "string option"
  close_fails :: "string option"
  generateContentStream :: "nat \<Rightarrow> string \<Rightarrow> string \<Rightarrow> string + (string option list \<times> string option)"
    \<comment> \<open>block, contents, voice: the call rejects, or the stream yields chunks, each with
        its \<^verbatim>\<open>inlineData.data\<close> if it has one, and then ends or throws\<close>
  generateContent :: "nat \<Rightarrow> string \<Rightarrow> string \<Rightarrow> string + string option"
    \<comment> \<open>block, contents, voice: the call rejects, or answers with \<^verbatim>\<open>inlineData.data\<close> or none\<close>
  atob :: "string \<Rightarrow> string + string"
  createWavHeader :: "nat \<Rightarrow> nat \<Rightarrow> nat \<Rightarrow> nat \<Rightarrow> bytes"
    \<comment> \<open>\<^verbatim>\<open>createWavHeader\<close> of utils/audio, which is not among the sources\<close>

definition charCodes :: "string \<Rightarrow> bytes" where
  \<comment> \<open>the loop \<^verbatim>\<open>bytes[j] = binaryString.charCodeAt(j)\<close>\<close>
  "charCodes binaryString = map of_char binaryString"

text \<open>
  The progress value is \<^verbatim>\<open>Math.round((k / n) * 100)\<close>, computed on doubles: the quotient
  is rounded to the nearest double, so is its product with 100, and \<^verbatim>\<open>Math.round\<close> gives
  the nearest integer, the upper one when two are as near. A positive double is written
  here as a pair \<open>(m, s)\<close> that stands for \<open>m / 2 ^ s\<close>, with \<open>m\<close> of 53 binary digits.
\<close>

fun bits :: "nat \<Rightarrow> nat" where
  \<comment> \<open>the number of binary digits\<close>
  "bits n = (if n = 0 then 0 else Suc (bits (n div 2)))"

declare bits.simps [simp del]

definition roundHalfEven :: "nat \<Rightarrow> nat \<Rightarrow> nat" where
  \<comment> \<open>the integer nearest to \<open>a / b\<close>, the even one when two are as near\<close>
  "roundHalfEven a b =
     (let q = a div b; r = a mod b
      in if 2 * r < b then q else if b < 2 * r then q + 1 else if even q then q else q + 1)"

definition nearestDouble :: "nat \<Rightarrow> nat \<Rightarrow> nat \<times> nat" where
  \<comment> \<open>the double nearest to \<open>a / b\<close>, for \<open>0 < a\<close> and \<open>a < b * 2 ^ 52\<close> (no overflow, no
      subnormal numbers): the scale \<open>s\<close> puts \<open>a / b * 2 ^ s\<close> between \<open>2 ^ 52\<close> and \<open>2 ^ 53\<close>,
      where the doubles are the integers\<close>
  "nearestDouble a b =
     (let s0 = 53 + bits b - bits a;
          s = (if a * 2 ^ s0 < b * 2 ^ 53 then s0 else s0 - 1)
      in (roundHalfEven (a * 2 ^ s) b, s))"

definition mathRound :: "nat \<times> nat \<Rightarrow> nat" where
  \<comment> \<open>\<^verbatim>\<open>Math.round\<close>: the floor of \<open>x + 1/2\<close>\<close>
  "mathRound x = (2 * fst x + 2 ^ snd x) div 2 ^ Suc (snd x)"

definition percent :: "nat \<Rightarrow> nat \<Rightarrow> nat" where
  \<comment> \<open>\<^verbatim>\<open>Math.round((k / n) * 100)\<close> for \<open>0 < k \<le> n\<close>\<close>
  "percent k n =
     (let quotient = nearestDouble k n;
          product = nearestDouble (100 * fst quotient) (2 ^ snd quotient)
      in mathRound product)"

section \<open>The pipeline of services/geminiService.ts\<close>

definition voiceName :: "MultiSpeakerConfig option \<Rightarrow> string \<Rightarrow> string" where
  "voiceName multiSpeakerConfig blockSpeaker =
     (let speakerName = toLowerCase blockSpeaker
      in if includes_str speakerName ''roberta'' then ''Aoede''
         else if includes_str speakerName ''milton'' then ''Enceladus''
         else (case multiSpeakerConfig of
                 None \<Rightarrow> ''Kore''
               | Some speakers \<Rightarrow>
                   (case find (\<lambda>s. fst s = blockSpeaker) speakers of
                      Some found \<Rightarrow> snd found
                    | None \<Rightarrow> ''Kore'')))"

text \<open>
  The loop over the chunks of one response stream. It gives the events, the new
  \<^verbatim>\<open>totalSize\<close> and the exception that ended it, if any. A chunk without data, or with
  the empty string as data, is passed over.
\<close>

fun streamChunks ::
  "env \<Rightarrow> bool \<Rightarrow> nat \<Rightarrow> nat \<Rightarrow> string option list \<Rightarrow> nat \<Rightarrow> event list \<times> nat \<times> string option" where
  "streamChunks e writable i j [] totalSize = ([], totalSize, None)"
| "streamChunks e writable i j (chunk # rest) totalSize =
     (case chunk of
        None \<Rightarrow> streamChunks e writable i (Suc j) rest totalSize
      | Some base64Audio \<Rightarrow>
          if base64Audio = [] then streamChunks e writable i (Suc j) rest totalSize
          else (case atob e base64Audio of
                  Inl msg \<Rightarrow> ([], totalSize, Some msg)
                | Inr binaryString \<Rightarrow>
                    (let bytes = charCodes binaryString
                     in if writable then
                          (case writeAudio_fails e i j of
                             Some msg \<Rightarrow> ([], totalSize, Some msg)
                           | None \<Rightarrow>
                               (let (es, size1, x) =
                                      streamChunks e writable i (Suc j) rest (totalSize + length bytes)
                                in (Write bytes # es, size1, x)))
                        else
                          (let (es, size1, x) =
                                 streamChunks e writable i (Suc j) rest (totalSize + length bytes)
                           in (OnChunk bytes # es, size1, x)))))"

text \<open>
  The body of the loop over the blocks, for block \<open>i\<close>; \<open>n\<close> is \<^verbatim>\<open>blocks.length\<close>.
  It gives the events, the new \<^verbatim>\<open>totalSize\<close> and the exception that left it, if any.
  A block that is blank after cleaning takes the \<^verbatim>\<open>continue\<close>.
\<close>

definition processBlock ::
  "env \<Rightarrow> MultiSpeakerConfig option \<Rightarrow> bool \<Rightarrow> nat \<Rightarrow> nat \<Rightarrow> DialogueBlock \<Rightarrow> nat
     \<Rightarrow> event list \<times> nat \<times> string option" where
  "processBlock e cfg writable n i block totalSize =
     (let cleanedText = stripStageDirection (btext block)
      in if trim cleanedText = [] then ([], totalSize, None)
         else
           (let voice = voiceName cfg (speaker block)
            in case generateContentStream e i cleanedText voice of
                 Inl msg \<Rightarrow> ([Generate cleanedText voice], totalSize, Some msg)
               | Inr (chunks, failure) \<Rightarrow>
                   (case streamChunks e writable i 0 chunks totalSize of
                      (es, size1, Some msg) \<Rightarrow> (Generate cleanedText voice # es, size1, Some msg)
                    | (es, size1, None) \<Rightarrow>
                        (case failure of
                           Some msg \<Rightarrow> (Generate cleanedText voice # es, size1, Some msg)
                         | None \<Rightarrow>
                             (Generate cleanedText voice # es @ [OnProgress (percent (Suc i) n)],
                              size1, None)))))"

text \<open>
  The loop, from block \<open>i\<close> on. An exception leaves the loop, and the function, for the
  handler at the end of \<^verbatim>\<open>generateSpeech\<close>.
\<close>

fun blocksLoop ::
  "env \<Rightarrow> MultiSpeakerConfig option \<Rightarrow> bool \<Rightarrow> nat \<Rightarrow> nat \<Rightarrow> DialogueBlock list \<Rightarrow> nat
     \<Rightarrow> event list \<times> nat \<times> string option" where
  "blocksLoop e cfg writable n i [] totalSize = ([], totalSize, None)"
| "blocksLoop e cfg writable n i (block # rest) totalSize =
     (case processBlock e cfg writable n i block totalSize of
        (es, size1, Some msg) \<Rightarrow> (es, size1, Some msg)
      | (es, size1, None) \<Rightarrow>
          (let (more, size2, x) = blocksLoop e cfg writable n (Suc i) rest size1
           in (es @ more, size2, x)))"

definition openSink :: "env \<Rightarrow> bool \<Rightarrow> event list \<times> string option" where
  \<comment> \<open>\<^verbatim>\<open>createWritable\<close> and the placeholder header, when a file handle is given\<close>
  "openSink e fileHandle =
     (if fileHandle then
        (case createWritable_fails e of
           Some msg \<Rightarrow> ([], Some msg)
         | None \<Rightarrow>
             (case writePlaceholder_fails e of
                Some msg \<Rightarrow> ([], Some msg)
              | None \<Rightarrow> ([Write (createWavHeader e 0 1 24000 16)], None)))
      else ([], None))"

definition finalizeFile :: "env \<Rightarrow> nat \<Rightarrow> event list \<times> string option" where
  \<comment> \<open>the inner \<^verbatim>\<open>try\<close> around \<^verbatim>\<open>seek(0)\<close> and the header, then \<^verbatim>\<open>close()\<close> outside it\<close>
  "finalizeFile e totalSize =
     (let rewrite =
            (case seek_fails e of
               Some msg \<Rightarrow> [Warn]
             | None \<Rightarrow>
                 (case writeHeader_fails e of
                    Some msg \<Rightarrow> [Seek 0, Warn]
                  | None \<Rightarrow> [Seek 0, Write (createWavHeader e totalSize 1 24000 16)]))
      in case close_fails e of
           Some msg \<Rightarrow> (rewrite, Some msg)
         | None \<Rightarrow> (rewrite @ [Close], None))"

definition errorMessage :: "string \<Rightarrow> string" where
  \<comment> \<open>\<^verbatim>\<open>error.message || "Audio generation failed"\<close>\<close>
  "errorMessage msg = (if msg = [] then ''Audio generation failed'' else msg)"

definition generateSpeech :: "env \<Rightarrow> string \<Rightarrow> MultiSpeakerConfig option \<Rightarrow> bool \<Rightarrow> event list" where
  "generateSpeech e text multiSpeakerConfig fileHandle =
     (let blocks = parseDialogueIntoChunks text
      in case openSink e fileHandle of
           (es0, Some msg) \<Rightarrow> es0 @ [OnError (errorMessage msg)]
         | (es0, None) \<Rightarrow>
             (case blocksLoop e multiSpeakerConfig fileHandle (length blocks) 0 blocks 0 of
                (es1, totalSize, Some msg) \<Rightarrow> es0 @ es1 @ [OnError (errorMessage msg)]
              | (es1, totalSize, None) \<Rightarrow>
                  if fileHandle then
                    (case finalizeFile e totalSize of
                       (es2, Some msg) \<Rightarrow> es0 @ es1 @ es2 @ [OnError (errorMessage msg)]
                     | (es2, None) \<Rightarrow> es0 @ es1 @ es2 @ [OnComplete])
                  else es0 @ es1 @ [OnComplete]))"

section \<open>The pipeline of part_000\<close>

definition matchesFirstName :: "string \<Rightarrow> string \<Rightarrow> bool" where
  \<comment> \<open>\<^verbatim>\<open>block.speaker.toLowerCase().includes(s.name.toLowerCase().split(' ')[0])\<close>\<close>
  "matchesFirstName blockSpeaker sname =
     includes_str (toLowerCase blockSpeaker) (takeWhile (\<lambda>c. c \<noteq> CHR '' '') (toLowerCase sname))"

definition voiceNameB :: "MultiSpeakerConfig option \<Rightarrow> string \<Rightarrow> string" where
  "voiceNameB multiSpeakerConfig blockSpeaker =
     (case multiSpeakerConfig of
        None \<Rightarrow> ''Aoede''
      | Some speakers \<Rightarrow>
          (case find (\<lambda>s. matchesFirstName blockSpeaker (fst s)) speakers of
             Some speakerMap \<Rightarrow> snd speakerMap
           | None \<Rightarrow> ''Aoede''))"

function decimal :: "nat \<Rightarrow> string" where
  \<comment> \<open>a number inside a template literal\<close>
  "decimal n = (if n < 10 then [char_of (48 + n)] else decimal (n div 10) @ [char_of (48 + n mod 10)])"
  by pat_completeness auto
termination
  by (relation "measure id") auto

definition blockError :: "nat \<Rightarrow> string" where
  "blockError processedBlocks = ''Error generating audio for block '' @ decimal (processedBlocks + 1)"

text \<open>
  What one answer of the model leads to, after the request: the decoded audio goes to the
  stream or to \<^verbatim>\<open>onChunk\<close>. Modelled from the spec: \<^verbatim>\<open>writeChunkToStream\<close> of
  utils/opfsUtils is not among the sources; it is taken as the step "append the bytes to
  the sink", one \<^verbatim>\<open>write\<close> that succeeds or throws.
\<close>

definition deliverB :: "env \<Rightarrow> bool \<Rightarrow> nat \<Rightarrow> string option \<Rightarrow> event list \<times> string option" where
  "deliverB e writable i audioData =
     (case audioData of
        None \<Rightarrow> ([], None)
      | Some b64 \<Rightarrow>
          if b64 = [] then ([], None)
          else (case atob e b64 of
                  Inl msg \<Rightarrow> ([], Some msg)
                | Inr binaryString \<Rightarrow>
                    if writable then
                      (case writeAudio_fails e i 0 of
                         Some msg \<Rightarrow> ([], Some msg)
                       | None \<Rightarrow> ([Write (charCodes binaryString)], None))
                    else ([OnChunk (charCodes binaryString)], None)))"

text \<open>
  The body of the loop over the blocks, for block \<open>i\<close>, with its own \<^verbatim>\<open>try\<close>, whose
  handler reports the error and lets the loop go on; \<open>n\<close> is \<^verbatim>\<open>totalBlocks\<close>. It
  gives the events and the new \<^verbatim>\<open>processedBlocks\<close>.
\<close>

definition processBlockB ::
  "env \<Rightarrow> MultiSpeakerConfig option \<Rightarrow> bool \<Rightarrow> nat \<Rightarrow> nat \<Rightarrow> DialogueBlock \<Rightarrow> nat
     \<Rightarrow> event list \<times> nat" where
  "processBlockB e cfg writable n i block processedBlocks =
     (let voice = voiceNameB cfg (speaker block);
          textToSpeak = cleanTextForSpeech (btext block)
      in if trim textToSpeak = [] then ([], processedBlocks)
         else
           (case generateContent e i textToSpeak voice of
              Inl msg \<Rightarrow>
                ([Generate textToSpeak voice, OnError (blockError processedBlocks)], processedBlocks)
            | Inr audioData \<Rightarrow>
                (case deliverB e writable i audioData of
                   (es, Some msg) \<Rightarrow>
                     (Generate textToSpeak voice # es @ [OnError (blockError processedBlocks)],
                      processedBlocks)
                 | (es, None) \<Rightarrow>
                     (Generate textToSpeak voice # es
                        @ [OnProgress (percent (Suc processedBlocks) n)],
                      Suc processedBlocks))))"

fun blocksLoopB ::
  "env \<Rightarrow> MultiSpeakerConfig option \<Rightarrow> bool \<Rightarrow> nat \<Rightarrow> nat \<Rightarrow> DialogueBlock list \<Rightarrow> nat \<Rightarrow> event list" where
  "blocksLoopB e cfg writable n i [] processedBlocks = []"
| "blocksLoopB e cfg writable n i (block # rest) processedBlocks =
     (let (es, processed) = processBlockB e cfg writable n i block processedBlocks
      in es @ blocksLoopB e cfg writable n (Suc i) rest processed)"

text \<open>
  The function has no handler of its own around the stream: when \<^verbatim>\<open>createWritable\<close> or
  \<^verbatim>\<open>close\<close> rejects, its promise rejects, which is the second component. All four
  callbacks are taken to be supplied.
\<close>

definition generateSpeechB ::
  "env \<Rightarrow> string \<Rightarrow> MultiSpeakerConfig option \<Rightarrow> bool \<Rightarrow> event list \<times> string option" where
  "generateSpeechB e text multiSpeakerConfig opfsFileHandle =
     (let blocks = parseDialogueIntoChunksB text
      in case (if opfsFileHandle then createWritable_fails e else None) of
           Some msg \<Rightarrow> ([], Some msg)
         | None \<Rightarrow>
             (let es = blocksLoopB e multiSpeakerConfig opfsFileHandle (length blocks) 0 blocks 0
              in if opfsFileHandle then
                   (case close_fails e of
                      Some msg \<Rightarrow> (es, Some msg)
                    | None \<Rightarrow> (es @ [Close, OnComplete], None))
                 else (es @ [OnComplete], None)))"

section \<open>The file behind the stream\<close>

text \<open>
  The contents of the file after the writes and seeks of a run, starting empty with the
  cursor at 0: a write replaces the bytes under the cursor, lengthens the file where it
  runs past the end, and moves the cursor behind what it wrote.
\<close>

fun sinkStep :: "bytes \<times> nat \<Rightarrow> event \<Rightarrow> bytes \<times> nat" where
  "sinkStep (content, cursor) (Write bs) =
     (take cursor content @ replicate (cursor - length content) 0 @ bs
        @ drop (cursor + length bs) content,
      cursor + length bs)"
| "sinkStep (content, cursor) (Seek pos) = (content, pos)"
| "sinkStep (content, cursor) ev = (content, cursor)"

definition fileContents :: "event list \<Rightarrow> bytes" where
  "fileContents events = fst (foldl sinkStep ([], 0) events)"

fun chunkOf :: "event \<Rightarrow> bytes" where
  "chunkOf (OnChunk bs) = bs"
| "chunkOf ev = []"

definition chunkStream :: "event list \<Rightarrow> bytes" where
  \<comment> \<open>the bytes handed to \<^verbatim>\<open>onChunk\<close>, one call after the other\<close>
  "chunkStream events = concat (map chunkOf events)"

section \<open>What a run shows to the caller\<close>

fun progressOf :: "event list \<Rightarrow> nat list" where
  \<comment> \<open>the values passed to \<^verbatim>\<open>onProgress\<close>, in order\<close>
  "progressOf [] = []"
| "progressOf (OnProgress p # es) = p # progressOf es"
| "progressOf (ev # es) = progressOf es"

fun writesOf :: "event list \<Rightarrow> bytes list" where
  \<comment> \<open>the byte arrays written to the stream, in order\<close>
  "writesOf [] = []"
| "writesOf (Write bs # es) = bs # writesOf es"
| "writesOf (ev # es) = writesOf es"

fun requestsOf :: "event list \<Rightarrow> (string \<times> string) list" where
  \<comment> \<open>the requests made to the model, in order\<close>
  "requestsOf [] = []"
| "requestsOf (Generate t v # es) = (t, v) # requestsOf es"
| "requestsOf (ev # es) = requestsOf es"

fun errorsOf :: "event list \<Rightarrow> string list" where
  \<comment> \<open>the messages passed to \<^verbatim>\<open>onError\<close>, in order\<close>
  "errorsOf [] = []"
| "errorsOf (OnError m # es) = m # errorsOf es"
| "errorsOf (ev # es) = errorsOf es"

definition skipped :: "DialogueBlock \<Rightarrow> bool" where
  \<comment> \<open>blank after cleaning, in services/geminiService.ts\<close>
  "skipped block \<longleftrightarrow> trim (stripStageDirection (btext block)) = []"

definition skippedB :: "DialogueBlock \<Rightarrow> bool" where
  \<comment> \<open>blank after cleaning, in part_000\<close>
  "skippedB block \<longleftrightarrow> trim (cleanTextForSpeech (btext block)) = []"

fun loopEvent :: "bool \<Rightarrow> event \<Rightarrow> bool" where
  \<comment> \<open>what the loop over the blocks can do: requests, progress reports, and audio to the
      stream when there is one, to \<^verbatim>\<open>onChunk\<close> otherwise\<close>
  "loopEvent w (Generate t v) = True"
| "loopEvent w (OnProgress p) = True"
| "loopEvent w (Write bs) = w"
| "loopEvent w (OnChunk bs) = (\<not> w)"
| "loopEvent w ev = False"

fun asChunk :: "event \<Rightarrow> event" where
  \<comment> \<open>the same audio handed to \<^verbatim>\<open>onChunk\<close> instead of written to the stream\<close>
  "asChunk (Write bs) = OnChunk bs"
| "asChunk ev = ev"

fun audioFrom :: "(bytes \<Rightarrow> bool) \<Rightarrow> event \<Rightarrow> bool" where
  \<comment> \<open>the bytes of the event, if it carries audio, are among \<open>S\<close>\<close>
  "audioFrom S (Write bs) = S bs"
| "audioFrom S (OnChunk bs) = S bs"
| "audioFrom S ev = True"

definition served :: "env \<Rightarrow> bytes \<Rightarrow> bool" where
  \<comment> \<open>decoded audio of the model: the bytes of \<^verbatim>\<open>atob\<close> of the data of a chunk of
      some response stream\<close>
  "served e bs \<longleftrightarrow>
     (\<exists>i t v chunks failure b64 bin.
        generateContentStream e i t v = Inr (chunks, failure) \<and> Some b64 \<in> set chunks
        \<and> atob e b64 = Inr bin \<and> bs = charCodes bin)"

definition servedB :: "env \<Rightarrow> bytes \<Rightarrow> bool" where
  \<comment> \<open>the same for the single answers that part_000 asks for\<close>
  "servedB e bs \<longleftrightarrow>
     (\<exists>i t v b64 bin.
        generateContent e i t v = Inr (Some b64) \<and> atob e b64 = Inr bin \<and> bs = charCodes bin)"

definition throwsB :: "env \<Rightarrow> MultiSpeakerConfig option \<Rightarrow> bool \<Rightarrow> nat \<Rightarrow> DialogueBlock \<Rightarrow> bool" where
  \<comment> \<open>in part_000, the request for block \<open>i\<close> or the handling of its answer throws\<close>
  "throwsB e cfg w i block \<longleftrightarrow>
     (case generateContent e i (cleanTextForSpeech (btext block)) (voiceNameB cfg (speaker block)) of
        Inl msg \<Rightarrow> True
      | Inr audioData \<Rightarrow> snd (deliverB e w i audioData) \<noteq> None)"

definition chunkThrows :: "env \<Rightarrow> bool \<Rightarrow> nat \<Rightarrow> nat \<Rightarrow> string option \<Rightarrow> string option" where
  \<comment> \<open>in services/geminiService.ts, what is thrown while chunk \<open>j\<close> of the answer for block
      \<open>i\<close> is handled, by \<^verbatim>\<open>atob\<close> or by the write to the stream\<close>
  "chunkThrows e w i j chunk =
     (case chunk of
        None \<Rightarrow> None
      | Some base64Audio \<Rightarrow>
          if base64Audio = [] then None
          else (case atob e base64Audio of
                  Inl msg \<Rightarrow> Some msg
                | Inr binaryString \<Rightarrow> if w then writeAudio_fails e i j else None))"

definition firstThrown :: "string option list \<Rightarrow> string option" where
  \<comment> \<open>the first exception of a sequence of steps\<close>
  "firstThrown xs = (case find (\<lambda>x. x \<noteq> None) xs of None \<Rightarrow> None | Some x \<Rightarrow> x)"

definition throwsA :: "env \<Rightarrow> MultiSpeakerConfig option \<Rightarrow> bool \<Rightarrow> nat \<Rightarrow> DialogueBlock \<Rightarrow> string option" where
  \<comment> \<open>in services/geminiService.ts, what is thrown while block \<open>i\<close> is requested or its answer
      handled: the request is rejected, a chunk cannot be decoded or written, or the response
      stream itself throws after its last chunk\<close>
  "throwsA e cfg w i block =
     (case generateContentStream e i (stripStageDirection (btext block)) (voiceName cfg (speaker block)) of
        Inl msg \<Rightarrow> Some msg
      | Inr (chunks, failure) \<Rightarrow>
          firstThrown (map (\<lambda>(j, chunk). chunkThrows e w i j chunk) (enumerate 0 chunks) @ [failure]))"

fun sinkEvent :: "event \<Rightarrow> bool" where
  \<comment> \<open>a seek, a close or a warning about the header\<close>
  "sinkEvent (Seek pos) = True"
| "sinkEvent Close = True"
| "sinkEvent Warn = True"
| "sinkEvent ev = False"

text \<open>
  An environment to run examples in: nothing fails, the model answers every request with
  one chunk of data, which decodes to four bytes, and the header has 44 bytes, the last
  four holding the payload size.
\<close>

definition sampleEnv :: env where
  "sampleEnv =
     \<lparr>createWritable_fails = None, writePlaceholder_fails = None,
      writeAudio_fails = (\<lambda>i j. None), seek_fails = None, writeHeader_fails = None,
      close_fails = None,
      generateContentStream = (\<lambda>i t v. Inr ([Some ''UklGRg==''], None)),
      generateContent = (\<lambda>i t v. Inr (Some ''UklGRg=='')),
      atob = (\<lambda>b. Inr ''RIFF''),
      createWavHeader = (\<lambda>n c r b. replicate 40 0 @
         [n mod 256, n div 256 mod 256, n div 65536 mod 256, n div 16777216 mod 256])\<rparr>"

text \<open>
  The same environment, except that the model rejects the request for the first block.
\<close>

definition flakyEnv :: env where
  "flakyEnv =
     sampleEnv
       \<lparr>generateContentStream :=
          (\<lambda>i t v. if i = 0 then Inl ''quota exceeded'' else Inr ([Some ''UklGRg==''], None)),
        generateContent :=
          (\<lambda>i t v. if i = 0 then Inl ''quota exceeded'' else Inr (Some ''UklGRg==''))\<rparr>"


text \<open>
  One in which the data answered for the second block cannot be decoded.
\<close>

definition garbledEnv :: env where
  "garbledEnv =
     sampleEnv
       \<lparr>generateContentStream := (\<lambda>i t v. Inr ([Some (if i = 1 then ''!'' else ''UklGRg=='')], None)),
        generateContent := (\<lambda>i t v. Inr (Some (if i = 1 then ''!'' else ''UklGRg==''))),
        atob := (\<lambda>b. if b = ''!'' then Inl ''The string to be decoded is not correctly encoded.''
                     else Inr ''RIFF'')\<rparr>"

text \<open>
  And one whose stream can neither seek nor close.
\<close>

definition brokenSinkEnv :: env where
  "brokenSinkEnv =
     sampleEnv\<lparr>seek_fails := Some ''seek is not supported'',
               close_fails := Some ''Cannot close an errored writable stream''\<rparr>"

section \<open>Numbers: rounding on doubles\<close>

lemmas double_defs = percent_def nearestDouble_def roundHalfEven_def mathRound_def Let_def

lemma bits_numeral [simp]:
  "bits 0 = 0" "bits 1 = 1" "bits (Suc 0) = 1" "bits (numeral Num.One) = 1"
  "bits (numeral (Num.Bit0 k)) = Suc (bits (numeral k))"
  "bits (numeral (Num.Bit1 k)) = Suc (bits (numeral k))"
proof -
  show "bits 0 = 0" "bits 1 = 1" "bits (Suc 0) = 1" "bits (numeral Num.One) = 1"
    by (simp_all add: bits.simps)
  have "numeral (Num.Bit0 k) div 2 = (numeral k :: nat)"
    by simp
  then show "bits (numeral (Num.Bit0 k)) = Suc (bits (numeral k))"
    by (subst bits.simps) simp
  have "numeral (Num.Bit1 k) div 2 = (numeral k :: nat)"
    by simp
  then show "bits (numeral (Num.Bit1 k)) = Suc (bits (numeral k))"
    by (subst bits.simps) simp
qed


lemma bits_upper: "n < 2 ^ bits n"
proof (induction n rule: bits.induct)
  case (1 n)
  show ?case
  proof (cases "n = 0")
    case True
    then show ?thesis by (simp add: bits.simps)
  next
    case False
    then have "n div 2 < 2 ^ bits (n div 2)"
      using 1 by simp
    then have "n < 2 * 2 ^ bits (n div 2)"
      by linarith
    then show ?thesis
      using False by (subst bits.simps) simp
  qed
qed

lemma bits_lower: "0 < n \<Longrightarrow> 2 ^ bits n \<le> 2 * n"
proof (induction n rule: bits.induct)
  case (1 n)
  show ?case
  proof (cases "n div 2 = 0")
    case True
    then have "n = 1"
      using "1.prems" by linarith
    then show ?thesis by simp
  next
    case False
    then have "2 ^ bits (n div 2) \<le> 2 * (n div 2)"
      using 1 by simp
    then have "2 * 2 ^ bits (n div 2) \<le> 2 * n"
      by linarith
    then show ?thesis
      using "1.prems" by (subst bits.simps) simp
  qed
qed

lemma roundHalfEven_le_iff:
  assumes "0 < b"
  shows "roundHalfEven a b \<le> N
           \<longleftrightarrow> 2 * a < (2 * N + 1) * b \<or> 2 * a = (2 * N + 1) * b \<and> even N"
proof -
  define q r where "q = a div b" and "r = a mod b"
  have a: "a = q * b + r" and r: "r < b"
    using assms by (simp_all add: q_def r_def)
  have R: "roundHalfEven a b
      = (if 2 * r < b then q else if b < 2 * r then q + 1 else if even q then q else q + 1)"
    by (simp add: roundHalfEven_def Let_def q_def r_def)
  let ?R = "if 2 * r < b then q else if b < 2 * r then q + 1 else if even q then q else q + 1"
  have main: "?R \<le> N
      \<longleftrightarrow> 2 * (q * b + r) < (2 * N + 1) * b \<or> 2 * (q * b + r) = (2 * N + 1) * b \<and> even N"
  proof -
    consider (le) d where "N = q + d" | (gt) d where "q = N + 1 + d"
      by (metis add.commute le_Suc_ex less_iff_Suc_add linorder_not_le Suc_eq_plus1 add.assoc)
    then show ?thesis
    proof cases
      case le
      show ?thesis
        unfolding le using r
        by (cases d) (auto simp: algebra_simps)
    next
      case gt
      show ?thesis
        unfolding gt using r
        by (auto simp: algebra_simps)
    qed
  qed
  show ?thesis
    unfolding R using main by (simp only: a [symmetric])
qed


lemma roundHalfEven_mono:
  assumes "0 < b" and "0 < b'" and le: "a * b' \<le> a' * b"
  shows "roundHalfEven a b \<le> roundHalfEven a' b'"
proof -
  define N where "N = roundHalfEven a' b'"
  have up: "2 * a' < (2 * N + 1) * b' \<or> 2 * a' = (2 * N + 1) * b' \<and> even N"
    using roundHalfEven_le_iff [OF assms(2), of a' N] by (simp add: N_def)
  have le2: "(2 * a) * b' \<le> (2 * a') * b"
    using le by simp
  have "2 * a < (2 * N + 1) * b \<or> 2 * a = (2 * N + 1) * b \<and> even N"
  proof (cases "2 * a' < (2 * N + 1) * b'")
    case True
    have "(2 * a) * b' \<le> (2 * a') * b"
      by (fact le2)
    also have "\<dots> < ((2 * N + 1) * b') * b"
      using True assms(1) by (rule mult_strict_right_mono)
    also have "\<dots> = ((2 * N + 1) * b) * b'"
      by (simp only: ac_simps)
    finally have "(2 * a) * b' < ((2 * N + 1) * b) * b'" .
    then have "2 * a < (2 * N + 1) * b"
      by (simp only: mult_less_cancel2)
    then show ?thesis ..
  next
    case False
    then have eq: "2 * a' = (2 * N + 1) * b'" and ev: "even N"
      using up by auto
    have "(2 * a) * b' \<le> (2 * a') * b"
      by (fact le2)
    also have "\<dots> = ((2 * N + 1) * b) * b'"
      unfolding eq by (simp only: ac_simps)
    finally have "(2 * a) * b' \<le> ((2 * N + 1) * b) * b'" .
    then have "2 * a \<le> (2 * N + 1) * b"
      using assms(2) by (simp only: mult_le_cancel2)
    then show ?thesis
      using ev by linarith
  qed
  then show ?thesis
    unfolding N_def [symmetric] using roundHalfEven_le_iff [OF assms(1), of a N] by simp
qed

lemma roundHalfEven_whole: "roundHalfEven N (Suc 0) = N"
  by (simp add: roundHalfEven_def)

lemma roundHalfEven_upper: "0 < b \<Longrightarrow> a \<le> N * b \<Longrightarrow> roundHalfEven a b \<le> N"
  using roundHalfEven_mono [of b "Suc 0" a N] by (simp add: roundHalfEven_whole)

lemma roundHalfEven_lower: "0 < b \<Longrightarrow> N * b \<le> a \<Longrightarrow> N \<le> roundHalfEven a b"
  using roundHalfEven_mono [of "Suc 0" b N a] by (simp add: roundHalfEven_whole)


lemma nearestDouble_scaled:
  assumes "0 < a" and "0 < b" and "a < b * 2 ^ 52"
  shows "b * 2 ^ 52 \<le> a * 2 ^ snd (nearestDouble a b)"
    and "a * 2 ^ snd (nearestDouble a b) < b * 2 ^ 53"
    and "fst (nearestDouble a b) = roundHalfEven (a * 2 ^ snd (nearestDouble a b)) b"
proof -
  define P :: nat where "P = 2 ^ 52"
  define s0 where "s0 = 53 + bits b - bits a"
  have P53: "(2::nat) ^ 53 = 2 * P"
    by (simp add: P_def)
  have "2 ^ bits a \<le> 2 * a"
    using assms(1) by (rule bits_lower)
  also have "\<dots> < 2 * (b * 2 ^ 52)"
    using assms(3) by simp
  also have "\<dots> < 2 * (2 ^ bits b * 2 ^ 52)"
    using bits_upper [of b] by simp
  also have "\<dots> = 2 ^ (bits b + 53)"
    by (simp add: power_add)
  finally have "bits a < bits b + 53"
    by (simp only: power_strict_increasing_iff)
  then have sum: "s0 + bits a = 53 + bits b" and pos: "0 < s0"
    by (simp_all add: s0_def)
  have whole: "2 ^ bits a * 2 ^ s0 = 2 ^ bits b * (2 * P :: nat)"
  proof -
    have "(2::nat) ^ bits a * 2 ^ s0 = 2 ^ (s0 + bits a)"
      by (simp add: power_add)
    also have "\<dots> = 2 ^ bits b * 2 ^ 53"
      unfolding sum by (simp add: power_add)
    finally show ?thesis
      unfolding P53 .
  qed
  have low: "b * (2 * P) < (2 * a) * 2 ^ s0"
  proof -
    have "b * (2 * P) < 2 ^ bits b * (2 * P)"
      using bits_upper [of b] by (simp add: P_def)
    also have "\<dots> = 2 ^ bits a * 2 ^ s0"
      by (simp only: whole)
    also have "\<dots> \<le> (2 * a) * 2 ^ s0"
      using bits_lower [OF assms(1)] by (rule mult_right_mono) simp
    finally show ?thesis .
  qed
  have high: "a * 2 ^ s0 < (2 * b) * (2 * P)"
  proof -
    have "a * 2 ^ s0 < 2 ^ bits a * 2 ^ s0"
      using bits_upper [of a] by simp
    also have "\<dots> = 2 ^ bits b * (2 * P)"
      by (simp only: whole)
    also have "\<dots> \<le> (2 * b) * (2 * P)"
      using bits_lower [OF assms(2)] by (rule mult_right_mono) simp
    finally show ?thesis .
  qed
  define s where "s = (if a * 2 ^ s0 < b * (2 * P) then s0 else s0 - 1)"
  have nd: "nearestDouble a b = (roundHalfEven (a * 2 ^ s) b, s)"
    by (simp only: nearestDouble_def Let_def s0_def [symmetric] P53 s_def)
  have "b * P \<le> a * 2 ^ s \<and> a * 2 ^ s < b * (2 * P)"
  proof (cases "a * 2 ^ s0 < b * (2 * P)")
    case True
    then show ?thesis
      using low by (simp add: s_def)
  next
    case False
    obtain t where t: "s0 = Suc t"
      using pos by (cases s0) auto
    show ?thesis
      using False high by (simp add: s_def t ac_simps)
  qed
  then show "b * 2 ^ 52 \<le> a * 2 ^ snd (nearestDouble a b)"
    and "a * 2 ^ snd (nearestDouble a b) < b * 2 ^ 53"
    and "fst (nearestDouble a b) = roundHalfEven (a * 2 ^ snd (nearestDouble a b)) b"
    unfolding nd P53 by (simp_all add: P_def)
qed


lemma nearestDouble_bounds:
  assumes "0 < a" and "0 < b" and "a < b * 2 ^ 52"
  shows "2 ^ 52 \<le> fst (nearestDouble a b)" and "fst (nearestDouble a b) \<le> 2 ^ 53"
proof -
  note sc = nearestDouble_scaled [OF assms]
  show "2 ^ 52 \<le> fst (nearestDouble a b)"
    unfolding sc(3) using assms(2) sc(1) by (intro roundHalfEven_lower) (simp_all add: ac_simps)
  show "fst (nearestDouble a b) \<le> 2 ^ 53"
    unfolding sc(3) using assms(2) sc(2) by (intro roundHalfEven_upper) (simp_all add: ac_simps)
qed

lemma nearestDouble_mono:
  assumes a: "0 < a" "0 < b" "a < b * 2 ^ 52"
    and a': "0 < a'" "0 < b'" "a' < b' * 2 ^ 52"
    and le: "a * b' \<le> a' * b"
  shows "fst (nearestDouble a b) * 2 ^ snd (nearestDouble a' b')
           \<le> fst (nearestDouble a' b') * 2 ^ snd (nearestDouble a b)"
proof -
  define s s' where "s = snd (nearestDouble a b)" and "s' = snd (nearestDouble a' b')"
  define m m' where "m = fst (nearestDouble a b)" and "m' = fst (nearestDouble a' b')"
  define P :: nat where "P = 2 ^ 52"
  have P53: "(2::nat) ^ 53 = 2 * P"
    by (simp add: P_def)
  note sc = nearestDouble_scaled [OF a, folded s_def m_def P_def, unfolded P53]
  note sc' = nearestDouble_scaled [OF a', folded s'_def m'_def P_def, unfolded P53]
  note bd = nearestDouble_bounds [OF a, folded m_def P_def, unfolded P53]
  note bd' = nearestDouble_bounds [OF a', folded m'_def P_def, unfolded P53]
  have scaled: "(a * 2 ^ t) * b' \<le> (a' * 2 ^ t) * b" for t
  proof -
    have "(a * b') * 2 ^ t \<le> (a' * b) * 2 ^ t"
      using le by (rule mult_right_mono) simp
    then show ?thesis
      by (simp only: ac_simps)
  qed
  have order: "s' \<le> s"
  proof (rule ccontr)
    assume "\<not> s' \<le> s"
    then obtain d where d: "s' = Suc (s + d)"
      by (metis less_iff_Suc_add not_le)
    have "(b * P) * b' \<le> (a * 2 ^ s) * b'"
      using sc(1) by (rule mult_right_mono) simp
    also have "\<dots> \<le> (a' * 2 ^ s) * b"
      by (rule scaled)
    finally have "(b' * P) * b \<le> (a' * 2 ^ s) * b"
      by (simp only: ac_simps)
    then have "b' * P \<le> a' * 2 ^ s"
      using a(2) by (simp only: mult_le_cancel2)
    then have "2 * (b' * P) \<le> 2 * (a' * 2 ^ s)"
      by simp
    also have "\<dots> \<le> a' * 2 ^ s'"
      unfolding d by (simp add: power_add)
    finally show False
      using sc'(2) by (simp add: ac_simps)
  qed
  show ?thesis
  proof (cases "s' = s")
    case True
    have "m \<le> m'"
      unfolding sc(3) sc'(3) True using a(2) a'(2) scaled [of s] by (rule roundHalfEven_mono)
    then show ?thesis
      unfolding m_def [symmetric] m'_def [symmetric] s_def [symmetric] s'_def [symmetric] True
      by simp
  next
    case False
    then obtain d where d: "s = Suc (s' + d)"
      using order by (metis le_neq_implies_less less_iff_Suc_add)
    have "m * 2 ^ s' \<le> (2 * P) * 2 ^ s'"
      using bd(2) by (rule mult_right_mono) simp
    also have "\<dots> \<le> P * 2 ^ s"
      unfolding d by (simp add: power_add)
    also have "\<dots> \<le> m' * 2 ^ s"
      using bd'(1) by (rule mult_right_mono) simp
    finally show ?thesis
      unfolding m_def [symmetric] m'_def [symmetric] s_def [symmetric] s'_def [symmetric] .
  qed
qed

lemma mathRound_mono:
  assumes "fst x * 2 ^ snd y \<le> fst y * 2 ^ snd x"
  shows "mathRound x \<le> mathRound y"
proof -
  define u v where "u = 2 * fst x + 2 ^ snd x" and "v = 2 * fst y + 2 ^ snd y"
  have "u * 2 ^ snd y \<le> v * 2 ^ snd x"
    using assms by (simp add: u_def v_def algebra_simps)
  then have cross: "u * 2 ^ Suc (snd y) \<le> v * 2 ^ Suc (snd x)"
    by simp
  have "(u div 2 ^ Suc (snd x)) * 2 ^ Suc (snd x) \<le> u"
    by simp
  then have "((u div 2 ^ Suc (snd x)) * 2 ^ Suc (snd x)) * 2 ^ Suc (snd y) \<le> u * 2 ^ Suc (snd y)"
    by (rule mult_right_mono) simp
  also have "\<dots> \<le> v * 2 ^ Suc (snd x)"
    by (fact cross)
  finally have "((u div 2 ^ Suc (snd x)) * 2 ^ Suc (snd y)) * 2 ^ Suc (snd x) \<le> v * 2 ^ Suc (snd x)"
    by (simp only: ac_simps)
  then have "(u div 2 ^ Suc (snd x)) * 2 ^ Suc (snd y) \<le> v"
    by (simp only: mult_le_cancel2) simp
  then have "u div 2 ^ Suc (snd x) \<le> v div 2 ^ Suc (snd y)"
    by (simp add: less_eq_div_iff_mult_less_eq)
  then show ?thesis
    by (simp add: mathRound_def u_def v_def)
qed


lemma quotient_le_one:
  assumes "0 < k" and "k \<le> n"
  shows "fst (nearestDouble k n) \<le> 2 ^ snd (nearestDouble k n)"
proof -
  have dom: "0 < k" "0 < n" "k < n * 2 ^ 52"
    using assms by simp_all
  have "k * 2 ^ snd (nearestDouble k n) \<le> 2 ^ snd (nearestDouble k n) * n"
    using assms(2) by simp
  then show ?thesis
    unfolding nearestDouble_scaled(3) [OF dom] using dom(2) by (intro roundHalfEven_upper)
qed

lemma percent_mono:
  assumes "0 < k" and "k \<le> k'" and "k' \<le> n"
  shows "percent k n \<le> percent k' n"
proof -
  define q q' where "q = nearestDouble k n" and "q' = nearestDouble k' n"
  have dom: "0 < k" "0 < n" "k < n * 2 ^ 52" and dom': "0 < k'" "0 < n" "k' < n * 2 ^ 52"
    using assms by simp_all
  have small: "fst q \<le> 2 ^ snd q" "fst q' \<le> 2 ^ snd q'"
    unfolding q_def q'_def using assms by (simp_all add: quotient_le_one)
  have big: "2 ^ 52 \<le> fst q" "2 ^ 52 \<le> fst q'"
    unfolding q_def q'_def
    by (fact nearestDouble_bounds(1) [OF dom] nearestDouble_bounds(1) [OF dom'])+
  have first: "fst q * 2 ^ snd q' \<le> fst q' * 2 ^ snd q"
    unfolding q_def q'_def using dom dom' by (rule nearestDouble_mono) (simp add: assms(2))
  have range: "0 < 100 * fst m" "(0::nat) < 2 ^ snd m" "100 * fst m < 2 ^ snd m * 2 ^ 52"
    if "fst m \<le> 2 ^ snd m" "2 ^ 52 \<le> fst m" for m :: "nat \<times> nat"
  proof -
    show "0 < 100 * fst m"
      using that(2) by (simp add: order.strict_trans2 [of 0 "2 ^ 52"])
    show "(0::nat) < 2 ^ snd m"
      by simp
    have "100 * fst m \<le> 100 * 2 ^ snd m"
      using that(1) by simp
    also have "\<dots> < 2 ^ 52 * 2 ^ snd m"
      by simp
    finally show "100 * fst m < 2 ^ snd m * 2 ^ 52"
      by (simp only: ac_simps)
  qed
  have "(100 * fst q) * 2 ^ snd q' \<le> (100 * fst q') * 2 ^ snd q"
    using first by simp
  then have "fst (nearestDouble (100 * fst q) (2 ^ snd q))
        * 2 ^ snd (nearestDouble (100 * fst q') (2 ^ snd q'))
      \<le> fst (nearestDouble (100 * fst q') (2 ^ snd q'))
        * 2 ^ snd (nearestDouble (100 * fst q) (2 ^ snd q))"
    by (intro nearestDouble_mono range small big)
  then have "mathRound (nearestDouble (100 * fst q) (2 ^ snd q))
      \<le> mathRound (nearestDouble (100 * fst q') (2 ^ snd q'))"
    by (rule mathRound_mono)
  then show ?thesis
    by (simp add: percent_def Let_def q_def q'_def)
qed

lemma one_as_double: "0 < n \<Longrightarrow> nearestDouble n n = (2 ^ 52, 52)"
  by (simp add: nearestDouble_def roundHalfEven_def Let_def)

lemma percent_full: "0 < n \<Longrightarrow> percent n n = 100"
  by (simp add: percent_def one_as_double Let_def) (simp add: nearestDouble_def roundHalfEven_def mathRound_def Let_def)

text \<open>
  The rounding of the quotient shows: \<^verbatim>\<open>(23 / 40) * 100\<close> is \<^verbatim>\<open>57.49999999999999\<close> and
  \<^verbatim>\<open>(29 / 200) * 100\<close> is \<^verbatim>\<open>14.499999999999998\<close>, where exact arithmetic gives 57.5 and 14.5.
\<close>

lemma percent_examples:
  "percent 23 40 = 57" "percent 29 200 = 14" "percent 1 2 = 50"
  by (simp_all add: double_defs)

lemma percent_small [simp]:
  "percent (Suc 0) (Suc 0) = 100" "percent (Suc 0) (Suc (Suc 0)) = 50"
  "percent (Suc (Suc 0)) (Suc (Suc 0)) = 100" "percent (Suc 0) 2 = 50" "percent 2 2 = 100"
  using percent_examples(3) by (simp_all add: numeral_2_eq_2 percent_full)

section \<open>Strings: basic facts\<close>

lemmas char_classes = isWhiteSpace_def isLineTerminator_def isAsciiLetter_def isStar_def
  isNameChar_def isNameCharB_def isTerminal_def isQuote_def isOpener_def isCloser_def

text \<open>The definitions to unfold when a run is evaluated on a given text.\<close>

lemmas segmenter_defs = parseDialogueIntoChunks_def pushBuffer_def speakerRegex_def
  canonicalSpeaker_def toLowerCase_def lowerChar_def trim_def MAX_CHAR_LIMIT_def char_classes
  parseDialogueIntoChunksB_def speakerRegexB_def splitChunkB_def MAX_CHARS_def

lemmas pipeline_defs = generateSpeech_def openSink_def finalizeFile_def processBlock_def
  errorMessage_def voiceName_def stripStageDirection_def charCodes_def
  generateSpeechB_def processBlockB_def deliverB_def voiceNameB_def matchesFirstName_def
  cleanTextForSpeech_def stageDirectionB_def blockError_def sampleEnv_def Let_def
  char_of_eq_iff take_bit_eq_mod

lemma split_lines_single: "CHR 0x0A \<notin> set s \<Longrightarrow> split_lines s = [s]"
  by (induction s) auto

lemma trim_Nil: "trim [] = []"
  by (simp add: trim_def)

lemma trim_length: "length (trim s) \<le> length s"
  unfolding trim_def
  by (metis length_dropWhile_le length_rev order_trans)

lemma trim_spaces_around:
  assumes "s \<noteq> []" "\<not> isWhiteSpace (hd s)" "\<not> isWhiteSpace (last s)"
    and "\<forall>c\<in>set lead. isWhiteSpace c" "\<forall>c\<in>set trail. isWhiteSpace c"
  shows "trim (lead @ s @ trail) = s"
proof -
  have start: "dropWhile isWhiteSpace (lead @ s @ trail) = s @ trail"
    using assms(1,2,4) by (cases s) (auto simp: dropWhile_append)
  obtain ys y where s: "s = ys @ [y]"
    using assms(1) by (cases s rule: rev_cases) auto
  have "dropWhile isWhiteSpace (rev s) = rev s"
    using assms(3) unfolding s by simp
  then have "dropWhile isWhiteSpace (rev trail @ rev s) = rev s"
    using assms(5) by (simp add: dropWhile_append)
  then show ?thesis
    by (simp add: trim_def start)
qed

lemma trim_spaces_after:
  "s \<noteq> [] \<Longrightarrow> \<not> isWhiteSpace (hd s) \<Longrightarrow> \<not> isWhiteSpace (last s)
     \<Longrightarrow> \<forall>c\<in>set trail. isWhiteSpace c \<Longrightarrow> trim (s @ trail) = s"
  using trim_spaces_around [of s "[]" trail] by simp

lemma trim_plain:
  "s \<noteq> [] \<Longrightarrow> \<not> isWhiteSpace (hd s) \<Longrightarrow> \<not> isWhiteSpace (last s) \<Longrightarrow> trim s = s"
  using trim_spaces_around [of s "[]" "[]"] by simp

subsection \<open>How the sentence expression cuts a text\<close>

lemma sentenceMatches_skip:
  "\<forall>x\<in>set marks. isTerminal x
     \<Longrightarrow> sentenceMatches closing (marks @ rest) = sentenceMatches closing rest"
  by (induction marks) auto

lemma sentenceMatches_tail:
  "body \<noteq> [] \<Longrightarrow> \<forall>x\<in>set body. \<not> isTerminal x \<Longrightarrow> sentenceMatches closing body = [body]"
  by (cases body) (auto simp: dropWhile_eq_Nil_conv takeWhile_eq_all_conv)

lemma sentenceMatches_unit:
  assumes "body \<noteq> []" "\<forall>x\<in>set body. \<not> isTerminal x"
    and "marks \<noteq> []" "\<forall>x\<in>set marks. isTerminal x"
    and "rest = [] \<or> (\<not> isTerminal (hd rest) \<and> \<not> closing (hd rest))"
  shows "sentenceMatches closing (body @ marks @ rest)
           = (body @ marks) # sentenceMatches closing rest"
proof -
  obtain c cs where body: "body = c # cs"
    using assms(1) by (cases body) auto
  have nt: "\<not> isTerminal c"
    using assms(2) body by simp
  have t1: "takeWhile (\<lambda>x. \<not> isTerminal x) (c # cs @ marks @ rest) = body"
    using assms body by (cases marks) (auto simp: takeWhile_append)
  have d1: "dropWhile (\<lambda>x. \<not> isTerminal x) (c # cs @ marks @ rest) = marks @ rest"
    using assms body by (cases marks) (auto simp: dropWhile_append)
  have t2: "takeWhile isTerminal (marks @ rest) = marks"
    using assms by (cases rest) (auto simp: takeWhile_append)
  have d2: "dropWhile isTerminal (marks @ rest) = rest"
    using assms by (cases rest) (auto simp: dropWhile_append)
  have ne: "(marks @ rest = []) = False"
    using assms(3) by simp
  note step = sentenceMatches.simps(2)
    [of closing c "cs @ marks @ rest", unfolded Let_def t1 d1 t2 d2 ne]
  have "sentenceMatches closing (c # cs @ marks @ rest)
          = (body @ marks) # sentenceMatches closing rest"
    using step nt assms(5) by (cases rest) auto
  then show ?thesis
    unfolding body by simp
qed

section \<open>The segmenters on long buffers\<close>

lemma small_speaker: "canonicalSpeaker (trim ''A'') = ''A''"
  by (simp add: canonicalSpeaker_def trim_def toLowerCase_def lowerChar_def char_classes)

lemma pushBuffer_Nil: "pushBuffer sp [] = []"
  by (simp add: pushBuffer_def trim_Nil)

text \<open>
  Claim C4: every emitted segment has a non-empty speaker and a non-empty text; the
  sentence-splitting path for long buffers never emits a segment with empty text.
  The segmenter of services/geminiService.ts does emit one: on a speaker line whose text is
  one unbroken run of 1600 letters the first sentence already exceeds the limit while
  \<^verbatim>\<open>tempChunk\<close> is still empty, and the loop pushes the empty chunk before it takes
  the sentence.
\<close>

theorem C4_empty_segment:
  "parseDialogueIntoChunks (''A: '' @ replicate 1600 (CHR ''a'')) =
     [\<lparr>speaker = ''A'', btext = []\<rparr>, \<lparr>speaker = ''A'', btext = replicate 1600 (CHR ''a'')\<rparr>]"
proof -
  let ?R = "replicate 1600 (CHR ''a'')"
  define input where "input = ''A: '' @ ?R"
  have lines: "split_lines input = [input]"
    unfolding input_def by (rule split_lines_single) simp
  have m: "speakerRegex input = Some (''A'', ?R)"
    by (simp add: input_def speakerRegex_def char_classes list_ex_iff)
  have t: "trim (?R @ '' '') = ?R"
    by (rule trim_spaces_after) (simp_all add: char_classes)
  have ss: "sentencesOf (?R @ '' '') = [?R @ '' '']"
    by (simp add: sentencesOf_def sentenceMatches_tail char_classes)
  have push: "pushBuffer ''A'' (?R @ '' '') =
      [\<lparr>speaker = ''A'', btext = []\<rparr>, \<lparr>speaker = ''A'', btext = ?R\<rparr>]"
    by (simp add: pushBuffer_def t ss MAX_CHAR_LIMIT_def trim_Nil)
  have "parseDialogueIntoChunks input =
     [\<lparr>speaker = ''A'', btext = []\<rparr>, \<lparr>speaker = ''A'', btext = ?R\<rparr>]"
    by (simp add: parseDialogueIntoChunks_def lines m small_speaker push pushBuffer_Nil)
  then show ?thesis
    unfolding input_def .
qed

text \<open>
  The segmenter of part_000 has the same loop and emits the same empty segment; and in
  both segmenters a speaker name made of white space only gives a segment whose speaker is
  the empty string.
\<close>

lemma empty_segment_B:
  "parseDialogueIntoChunksB (''A: '' @ replicate 1600 (CHR ''a'')) =
     [\<lparr>speaker = ''A'', btext = []\<rparr>, \<lparr>speaker = ''A'', btext = replicate 1600 (CHR ''a'')\<rparr>]"
proof -
  let ?R = "replicate 1600 (CHR ''a'')"
  define input where "input = ''A: '' @ ?R"
  have lines: "split_lines input = [input]"
    unfolding input_def by (rule split_lines_single) simp
  have m: "speakerRegexB input = Some (''A'', CHR '' '' # ?R)"
    by (simp add: input_def speakerRegexB_def char_classes)
  have tA: "trim ''A'' = ''A''"
    by (rule trim_plain) (simp_all add: char_classes)
  have t: "trim (CHR '' '' # ?R) = ?R"
    using trim_spaces_around [of ?R "'' ''" "[]"] by (simp add: char_classes)
  have t': "trim ?R = ?R"
    by (rule trim_plain) (simp_all add: char_classes)
  have ss: "sentencesOfB ?R = [?R]"
    by (simp add: sentencesOfB_def sentenceMatches_tail char_classes)
  have split: "splitChunkB \<lparr>speaker = ''A'', btext = ?R\<rparr> =
      [\<lparr>speaker = ''A'', btext = []\<rparr>, \<lparr>speaker = ''A'', btext = ?R\<rparr>]"
    by (simp add: splitChunkB_def ss MAX_CHARS_def)
  have "parseDialogueIntoChunksB input =
      [\<lparr>speaker = ''A'', btext = []\<rparr>, \<lparr>speaker = ''A'', btext = ?R\<rparr>]"
    by (simp add: parseDialogueIntoChunksB_def lines m tA t t' trim_Nil split)
  then show ?thesis
    unfolding input_def .
qed

lemma empty_speaker:
  "parseDialogueIntoChunks '' : hello'' = [\<lparr>speaker = [], btext = ''hello''\<rparr>]"
  by (simp add: segmenter_defs)

lemma empty_speaker_B:
  "parseDialogueIntoChunksB '' : hello'' = [\<lparr>speaker = [], btext = ''hello''\<rparr>]"
  by (simp add: segmenter_defs)

text \<open>
  Claim C5: the texts of the emitted segments, put together in order and white space
  apart, give back what was said, with nothing lost. In a buffer over the limit the
  sentence expression cannot start a match on a terminal character, so the three dots
  that open what speaker A says are in no segment.
\<close>

theorem C5_lost_ellipsis:
  "parseDialogueIntoChunks (''A: ...abc. '' @ replicate 1600 (CHR ''b'')) =
     [\<lparr>speaker = ''A'', btext = ''abc.''\<rparr>, \<lparr>speaker = ''A'', btext = replicate 1600 (CHR ''b'')\<rparr>]"
proof -
  let ?R = "replicate 1600 (CHR ''b'')"
  define input where "input = ''A: ...abc. '' @ ?R"
  define said where "said = ''...abc. '' @ ?R"
  define long where "long = '' '' @ ?R @ '' ''"
  have lines: "split_lines input = [input]"
    unfolding input_def by (rule split_lines_single) simp
  have m: "speakerRegex input = Some (''A'', said)"
    by (simp add: input_def said_def speakerRegex_def char_classes list_ex_iff)
  have t: "trim (said @ '' '') = said"
    by (rule trim_spaces_after) (simp_all add: said_def char_classes)
  have len: "length (said @ '' '') = 1609" "length long = 1602"
    by (simp_all add: said_def long_def)
  have cut: "said @ '' '' = ''...'' @ ''abc'' @ ''.'' @ long"
    by (simp add: said_def long_def)
  have "sentenceMatches isQuote (said @ '' '') = sentenceMatches isQuote (''abc'' @ ''.'' @ long)"
    unfolding cut by (rule sentenceMatches_skip) (simp add: char_classes)
  also have "\<dots> = (''abc'' @ ''.'') # sentenceMatches isQuote long"
    by (rule sentenceMatches_unit) (simp_all add: long_def char_classes)
  also have "sentenceMatches isQuote long = [long]"
    by (rule sentenceMatches_tail) (simp_all add: long_def char_classes)
  finally have ss: "sentencesOf (said @ '' '') = [''abc.'', long]"
    by (simp add: sentencesOf_def)
  have sne: "said \<noteq> []"
    by (simp add: said_def)
  have t1: "trim ''abc.'' = ''abc.''"
    by (rule trim_plain) (simp_all add: char_classes)
  have t2: "trim long = ?R"
    unfolding long_def by (rule trim_spaces_around) (simp_all add: char_classes)
  have pack: "packSentences ''A'' [] [''abc.'', long] = ([\<lparr>speaker = ''A'', btext = ''abc.''\<rparr>], long)"
    using len(2) by (simp add: MAX_CHAR_LIMIT_def t1)
  have push: "pushBuffer ''A'' (said @ '' '') =
      [\<lparr>speaker = ''A'', btext = ''abc.''\<rparr>, \<lparr>speaker = ''A'', btext = ?R\<rparr>]"
    using len(1) sne by (simp add: pushBuffer_def t ss pack t2 MAX_CHAR_LIMIT_def del: packSentences.simps)
  have "parseDialogueIntoChunks input =
     [\<lparr>speaker = ''A'', btext = ''abc.''\<rparr>, \<lparr>speaker = ''A'', btext = ?R\<rparr>]"
    by (simp add: parseDialogueIntoChunks_def lines m small_speaker push pushBuffer_Nil)
  then show ?thesis
    unfolding input_def .
qed

subsection \<open>The limit\<close>

lemma packSentences_budget:
  assumes "length tempChunk \<le> MAX_CHAR_LIMIT \<or> tempChunk \<in> S"
    and "set sentences \<subseteq> S"
  shows "(\<forall>b\<in>set (fst (packSentences sp tempChunk sentences)).
            length (btext b) \<le> MAX_CHAR_LIMIT \<or> (\<exists>s\<in>S. btext b = trim s))
         \<and> (length (snd (packSentences sp tempChunk sentences)) \<le> MAX_CHAR_LIMIT
              \<or> snd (packSentences sp tempChunk sentences) \<in> S)"
  using assms
proof (induction sentences arbitrary: tempChunk)
  case Nil
  then show ?case by simp
next
  case (Cons s rest)
  show ?case
  proof (cases "length (tempChunk @ s) > MAX_CHAR_LIMIT")
    case True
    have here: "length (trim tempChunk) \<le> MAX_CHAR_LIMIT \<or> (\<exists>s\<in>S. trim tempChunk = trim s)"
      using Cons.prems(1) trim_length [of tempChunk] by auto
    have "length s \<le> MAX_CHAR_LIMIT \<or> s \<in> S" "set rest \<subseteq> S"
      using Cons.prems(2) by auto
    then show ?thesis
      using True here Cons.IH [of s] by (auto simp: split_beta)
  next
    case False
    then have "length (tempChunk @ s) \<le> MAX_CHAR_LIMIT \<or> tempChunk @ s \<in> S" "set rest \<subseteq> S"
      using Cons.prems(2) by auto
    then show ?thesis
      using False Cons.IH [of "tempChunk @ s"] by (auto simp: split_beta)
  qed
qed

text \<open>
  The segmenter of services/geminiService.ts keeps the limit: the text of a block it
  pushes has at most 1500 characters or is one sentence of the buffer, trimmed.
\<close>

lemma pushBuffer_budget:
  "b \<in> set (pushBuffer sp buf)
     \<Longrightarrow> length (btext b) \<le> MAX_CHAR_LIMIT \<or> (\<exists>s\<in>set (sentencesOf buf). btext b = trim s)"
proof -
  assume b: "b \<in> set (pushBuffer sp buf)"
  let ?S = "set (sentencesOf buf)"
  have pack: "(\<forall>b\<in>set (fst (packSentences sp [] (sentencesOf buf))).
            length (btext b) \<le> MAX_CHAR_LIMIT \<or> (\<exists>s\<in>?S. btext b = trim s))
         \<and> (length (snd (packSentences sp [] (sentencesOf buf))) \<le> MAX_CHAR_LIMIT
              \<or> snd (packSentences sp [] (sentencesOf buf)) \<in> ?S)"
    by (rule packSentences_budget) simp_all
  have last: "length (trim t) \<le> MAX_CHAR_LIMIT \<or> (\<exists>s\<in>?S. trim t = trim s)"
    if "length t \<le> MAX_CHAR_LIMIT \<or> t \<in> ?S" for t
    using that trim_length [of t] by auto
  show ?thesis
    using b pack last [of "snd (packSentences sp [] (sentencesOf buf))"] last [of buf]
    by (auto simp: pushBuffer_def split_beta split: if_splits)
qed

lemma parseLines_budget:
  "b \<in> set (fst (parseLines lines sp buf))
     \<Longrightarrow> length (btext b) \<le> MAX_CHAR_LIMIT \<or> (\<exists>buf' s. s \<in> set (sentencesOf buf') \<and> btext b = trim s)"
proof (induction lines arbitrary: sp buf)
  case Nil
  then show ?case by simp
next
  case (Cons line rest)
  then show ?case
    using pushBuffer_budget [of b sp buf]
    by (auto simp: split_beta split: option.splits if_splits)
qed

lemma parseDialogueIntoChunks_budget:
  "b \<in> set (parseDialogueIntoChunks text)
     \<Longrightarrow> length (btext b) \<le> 1500 \<or> (\<exists>buf s. s \<in> set (sentencesOf buf) \<and> btext b = trim s)"
  using parseLines_budget [of b "split_lines text" "''Narrator''" "[]"]
    pushBuffer_budget [of b _ _]
  by (auto simp: parseDialogueIntoChunks_def split_beta MAX_CHAR_LIMIT_def split: if_splits)

text \<open>
  Claim C3: no emitted segment is longer than 1500 characters, unless it is a single
  sentence that is longer by itself. The segmenter of part_000 tests the length of
  \<^verbatim>\<open>temp + sentence\<close> and then joins the two with a space between them: a sentence of
  1000 and one of 500 characters pass the test and give a segment of 1501 characters.
\<close>

theorem C3_two_sentences_1501:
  "parseDialogueIntoChunksB
      (''A: '' @ replicate 999 (CHR ''a'') @ ''.'' @ replicate 499 (CHR ''b'') @ ''.c'') =
     [\<lparr>speaker = ''A'',
       btext = replicate 999 (CHR ''a'') @ ''. '' @ replicate 499 (CHR ''b'') @ ''.''\<rparr>,
      \<lparr>speaker = ''A'', btext = ''c''\<rparr>]
   \<and> length (replicate 999 (CHR ''a'') @ ''. '' @ replicate 499 (CHR ''b'') @ ''.'') = 1501"
proof -
  let ?a = "replicate 999 (CHR ''a'')" and ?b = "replicate 499 (CHR ''b'')"
  define said where "said = ?a @ ''.'' @ ?b @ ''.c''"
  define input where "input = ''A: '' @ said"
  define s1 where "s1 = ?a @ ''.''"
  define s2 where "s2 = ?b @ ''.''"
  have lines: "split_lines input = [input]"
    unfolding input_def said_def by (rule split_lines_single) simp
  have m: "speakerRegexB input = Some (''A'', CHR '' '' # said)"
    by (simp add: input_def speakerRegexB_def char_classes)
  have tA: "trim ''A'' = ''A''"
    by (rule trim_plain) (simp_all add: char_classes)
  have t: "trim (CHR '' '' # said) = said"
    using trim_spaces_around [of said "'' ''" "[]"] by (simp add: said_def char_classes)
  have sne: "said \<noteq> []"
    by (simp add: said_def)
  have t': "trim said = said"
    by (rule trim_plain) (simp_all add: said_def char_classes)
  have len: "length said = 1501" "length s1 = 1000" "length s2 = 500"
    by (simp_all add: said_def s1_def s2_def)
  have cut: "said = ?a @ ''.'' @ (?b @ ''.'' @ ''c'')"
    by (simp add: said_def)
  have "sentenceMatches (\<lambda>c. False) said = (?a @ ''.'') # sentenceMatches (\<lambda>c. False) (?b @ ''.'' @ ''c'')"
    unfolding cut by (rule sentenceMatches_unit) (simp_all add: char_classes)
  also have "sentenceMatches (\<lambda>c. False) (?b @ ''.'' @ ''c'') = (?b @ ''.'') # sentenceMatches (\<lambda>c. False) ''c''"
    by (rule sentenceMatches_unit) (simp_all add: char_classes)
  also have "sentenceMatches (\<lambda>c. False) ''c'' = [''c'']"
    by (rule sentenceMatches_tail) (simp_all add: char_classes)
  finally have ss: "sentencesOfB said = [s1, s2, ''c'']"
    by (simp add: sentencesOfB_def s1_def s2_def)
  have ne: "s1 \<noteq> []"
    by (simp add: s1_def)
  have pack: "packSentencesB ''A'' [] [s1, s2, ''c''] =
      ([\<lparr>speaker = ''A'', btext = s1 @ '' '' @ s2\<rparr>], ''c'')"
    using len ne by (simp add: MAX_CHARS_def)
  have split: "splitChunkB \<lparr>speaker = ''A'', btext = said\<rparr> =
      [\<lparr>speaker = ''A'', btext = s1 @ '' '' @ s2\<rparr>, \<lparr>speaker = ''A'', btext = ''c''\<rparr>]"
    using len(1) by (simp add: splitChunkB_def ss pack MAX_CHARS_def del: packSentencesB.simps)
  have "parseDialogueIntoChunksB input =
      [\<lparr>speaker = ''A'', btext = s1 @ '' '' @ s2\<rparr>, \<lparr>speaker = ''A'', btext = ''c''\<rparr>]"
    using sne by (simp add: parseDialogueIntoChunksB_def lines m tA t t' trim_Nil split)
  then show ?thesis
    unfolding input_def said_def s1_def s2_def by simp
qed

section \<open>Voices\<close>

text \<open>
  Claim C6, as it stands: names that hold "roberta" or "milton" get their fixed voice
  whatever the map says, then the map decides, then the default. In part_000 the map
  comes first and last: a map entry for Roberta replaces her voice, and without a map
  Milton Dilts gets the default voice Aoede.
\<close>

theorem C6_counterexample:
  "voiceNameB (Some [(''Roberta'', ''Puck'')]) ''Roberta Erickson'' = ''Puck''
   \<and> voiceNameB None ''Milton Dilts'' = ''Aoede''"
  by (simp add: voiceNameB_def matchesFirstName_def toLowerCase_def lowerChar_def)

text \<open>
  Claim C6, amended: in services/geminiService.ts a speaker whose lower-cased name holds
  "roberta" gets Aoede, else one whose name holds "milton" gets Enceladus, both whatever
  the map holds; else the voice of the first map entry with exactly the speaker's name;
  else Kore. In part_000 there are no built-in names: the voice is that of the first map
  entry whose lower-cased first word occurs in the lower-cased speaker name, else Aoede.
\<close>

theorem C6_voice_resolution:
  "(includes_str (toLowerCase sp) ''roberta'' \<longrightarrow> voiceName cfg sp = ''Aoede'')
   \<and> (\<not> includes_str (toLowerCase sp) ''roberta'' \<and> includes_str (toLowerCase sp) ''milton''
        \<longrightarrow> voiceName cfg sp = ''Enceladus'')
   \<and> (\<not> includes_str (toLowerCase sp) ''roberta'' \<and> \<not> includes_str (toLowerCase sp) ''milton''
        \<longrightarrow> voiceName cfg sp =
            (case cfg of None \<Rightarrow> ''Kore''
             | Some speakers \<Rightarrow> (case map_of speakers sp of Some v \<Rightarrow> v | None \<Rightarrow> ''Kore'')))
   \<and> voiceNameB None sp = ''Aoede''
   \<and> ((\<forall>s\<in>set speakers. \<not> matchesFirstName sp (fst s)) \<longrightarrow> voiceNameB (Some speakers) sp = ''Aoede'')
   \<and> ((\<forall>s\<in>set earlier. \<not> matchesFirstName sp (fst s)) \<and> matchesFirstName sp n
        \<longrightarrow> voiceNameB (Some (earlier @ (n, v) # later)) sp = v)"
proof -
  have look: "(case find (\<lambda>s. fst s = sp) m of Some found \<Rightarrow> snd found | None \<Rightarrow> d)
      = (case map_of m sp of Some v \<Rightarrow> v | None \<Rightarrow> d)" for m :: MultiSpeakerConfig and d
    by (induction m) auto
  have none: "(\<forall>s\<in>set m. \<not> P s) \<Longrightarrow> find P m = None" for P and m :: MultiSpeakerConfig
    by (induction m) auto
  have first: "(\<forall>s\<in>set pre. \<not> P s) \<Longrightarrow> P x \<Longrightarrow> find P (pre @ x # post) = Some x"
    for P and pre post :: MultiSpeakerConfig and x
    by (induction pre) auto
  show ?thesis
    by (auto simp: voiceName_def voiceNameB_def look none first Let_def split: option.splits)
qed

theorem C6_voice_resolution_witness:
  "voiceName (Some [(''Roberta Erickson'', ''Puck'')]) ''Roberta Erickson'' = ''Aoede''
   \<and> voiceName (Some [(''Milton Dilts'', ''Puck'')]) ''Milton Dilts'' = ''Enceladus''
   \<and> voiceName (Some [(''Bob'', ''Fenrir''), (''Alice'', ''Puck''), (''Alice'', ''Zephyr'')]) ''Alice'' = ''Puck''
   \<and> voiceNameB (Some [(''Bob Stone'', ''Fenrir''), (''Roberta'', ''Puck'')]) ''Roberta Erickson'' = ''Puck''
   \<and> voiceNameB (Some [(''Bob Stone'', ''Fenrir'')]) ''Roberta Erickson'' = ''Aoede''"
proof -
  have r: "includes_str (toLowerCase ''Roberta Erickson'') ''roberta''"
    by (simp add: toLowerCase_def lowerChar_def char_of_eq_iff take_bit_eq_mod)
  have m: "\<not> includes_str (toLowerCase ''Milton Dilts'') ''roberta'' \<and> includes_str (toLowerCase ''Milton Dilts'') ''milton''"
    by (simp add: toLowerCase_def lowerChar_def char_of_eq_iff take_bit_eq_mod)
  have a: "\<not> includes_str (toLowerCase ''Alice'') ''roberta'' \<and> \<not> includes_str (toLowerCase ''Alice'') ''milton''"
    by (simp add: toLowerCase_def lowerChar_def char_of_eq_iff take_bit_eq_mod)
  have b1: "(\<forall>s\<in>set [(''Bob Stone'', ''Fenrir'')]. \<not> matchesFirstName ''Roberta Erickson'' (fst s))
      \<and> matchesFirstName ''Roberta Erickson'' ''Roberta''"
    by (simp add: matchesFirstName_def toLowerCase_def lowerChar_def char_of_eq_iff take_bit_eq_mod)
  have b2: "\<forall>s\<in>set [(''Bob Stone'', ''Fenrir'')]. \<not> matchesFirstName ''Roberta Erickson'' (fst s)"
    using b1 by simp
  show ?thesis
    using r m a b1 b2
      C6_voice_resolution [of "''Roberta Erickson''" "Some [(''Roberta Erickson'', ''Puck'')]"
         "[(''Bob Stone'', ''Fenrir'')]" "[(''Bob Stone'', ''Fenrir'')]" "''Roberta''" "''Puck''" "[]"]
      C6_voice_resolution [of "''Milton Dilts''" "Some [(''Milton Dilts'', ''Puck'')]" "[]" "[]" "''Milton''" "''Puck''" "[]"]
      C6_voice_resolution [of "''Alice''" "Some [(''Bob'', ''Fenrir''), (''Alice'', ''Puck''), (''Alice'', ''Zephyr'')]" "[]" "[]" "''Alice''" "''Puck''" "[]"]
    by simp
qed

section \<open>A stage direction before the speaker's name\<close>

lemma softly_blocks:
  "parseDialogueIntoChunks ''(softly) Roberta Erickson: Peace be with you.''
     = [\<lparr>speaker = ''Narrator'', btext = ''(softly) Roberta Erickson: Peace be with you.''\<rparr>]"
  by (simp add: segmenter_defs)

text \<open>
  Claim C9, as it stands: the line "(softly) Roberta Erickson: Peace be with you." is taken
  as spoken by Roberta Erickson and gets her voice. The speaker expression is anchored at
  the start of the line and does not match a line that opens with a bracket, so the line
  goes to the current speaker, here the default one, and is spoken with the default voice.
\<close>

theorem C9_counterexample:
  "map speaker (parseDialogueIntoChunks ''(softly) Roberta Erickson: Peace be with you.'') = [''Narrator'']
   \<and> generateSpeech sampleEnv ''(softly) Roberta Erickson: Peace be with you.'' None False
       = [Generate ''Roberta Erickson: Peace be with you.'' ''Kore'', OnChunk [82, 73, 70, 70],
          OnProgress 100, OnComplete]"
  by (simp add: segmenter_defs pipeline_defs)

text \<open>
  Claim C9, amended: for that line the segmenter emits one block, of speaker Narrator,
  holding the whole line; the pipeline strips the stage direction and asks for
  "Roberta Erickson: Peace be with you." in the voice of Narrator, which is Kore when no
  map is given.
\<close>

theorem C9_stage_direction_line:
  "parseDialogueIntoChunks ''(softly) Roberta Erickson: Peace be with you.''
     = [\<lparr>speaker = ''Narrator'', btext = ''(softly) Roberta Erickson: Peace be with you.''\<rparr>]
   \<and> take 1 (requestsOf (generateSpeech e ''(softly) Roberta Erickson: Peace be with you.'' cfg False))
     = [(''Roberta Erickson: Peace be with you.'', voiceName cfg ''Narrator'')]
   \<and> voiceName None ''Narrator'' = ''Kore''"
proof -
  have strip: "stripStageDirection ''(softly) Roberta Erickson: Peace be with you.''
      = ''Roberta Erickson: Peace be with you.''"
    by (simp add: stripStageDirection_def char_classes)
  have t: "trim ''Roberta Erickson: Peace be with you.'' \<noteq> []"
    by (simp add: trim_def char_classes)
  have kore: "voiceName None ''Narrator'' = ''Kore''"
    by (simp add: voiceName_def toLowerCase_def lowerChar_def)
  have "take 1 (requestsOf (generateSpeech e ''(softly) Roberta Erickson: Peace be with you.'' cfg False))
     = [(''Roberta Erickson: Peace be with you.'', voiceName cfg ''Narrator'')]"
    unfolding generateSpeech_def softly_blocks
    by (simp add: openSink_def processBlock_def strip t Let_def
          split: sum.splits prod.splits option.splits)
  then show ?thesis
    using softly_blocks kore by simp
qed

section \<open>Facts about the pipelines\<close>

subsection \<open>The chunks of one response\<close>

lemma streamChunks_events:
  "list_all (loopEvent w) (fst (streamChunks e w i j cs sz))"
  by (induction cs arbitrary: j sz)
     (auto split: option.splits sum.splits simp: Let_def split_beta)

lemma streamChunks_quiet:
  "progressOf (fst (streamChunks e w i j cs sz)) = []"
  "requestsOf (fst (streamChunks e w i j cs sz)) = []"
  "errorsOf (fst (streamChunks e w i j cs sz)) = []"
  by (induction cs arbitrary: j sz;
      auto split: option.splits sum.splits simp: Let_def split_beta)+

lemma streamChunks_size:
  "fst (snd (streamChunks e True i j cs sz))
     = sz + length (concat (writesOf (fst (streamChunks e True i j cs sz))))"
  by (induction cs arbitrary: j sz)
     (auto split: option.splits sum.splits simp: Let_def split_beta)

lemma streamChunks_mirror:
  "\<forall>j. writeAudio_fails e i j = None
     \<Longrightarrow> streamChunks e False i j cs sz
         = (case streamChunks e True i j cs sz of (es, sz', x) \<Rightarrow> (map asChunk es, sz', x))"
  by (induction cs arbitrary: j sz)
     (auto split: option.splits sum.splits simp: Let_def split_beta)

lemma audioFrom_mono: "list_all (audioFrom S) es \<Longrightarrow> (\<And>bs. S bs \<Longrightarrow> T bs) \<Longrightarrow> list_all (audioFrom T) es"
proof (induction es)
  case Nil
  show ?case by simp
next
  case (Cons ev es)
  then show ?case by (cases ev) auto
qed

lemma streamChunks_decoded:
  "list_all (audioFrom (\<lambda>bs. \<exists>b64 bin. Some b64 \<in> set cs \<and> atob e b64 = Inr bin \<and> bs = charCodes bin))
     (fst (streamChunks e w i j cs sz))"
proof -
  define S where "S cs = (\<lambda>bs. \<exists>b64 bin. Some b64 \<in> set cs \<and> atob e b64 = Inr bin \<and> bs = charCodes bin)"
    for cs :: "string option list"
  have grow: "S cs bs \<Longrightarrow> S (c # cs) bs" for c cs bs
    by (auto simp: S_def)
  have here: "atob e b64 = Inr bin \<Longrightarrow> S (Some b64 # cs) (charCodes bin)" for b64 bin cs
    by (auto simp: S_def)
  have "list_all (audioFrom (S cs)) (fst (streamChunks e w i j cs sz))"
  proof (induction cs arbitrary: j sz)
    case Nil
    show ?case by simp
  next
    case (Cons c cs)
    have rest: "list_all (audioFrom (S (c # cs))) (fst (streamChunks e w i j' cs sz'))" for j' sz'
      using Cons.IH [of j' sz'] grow by (rule audioFrom_mono)
    show ?case
      using rest [of "Suc j"] here [of _ _ cs]
      by (auto split: option.splits sum.splits simp: Let_def split_beta)
  qed
  then show ?thesis
    unfolding S_def .
qed


subsection \<open>Observations of joined runs\<close>

lemma progressOf_append: "progressOf (xs @ ys) = progressOf xs @ progressOf ys"
  by (induction xs rule: progressOf.induct) auto

lemma writesOf_append: "writesOf (xs @ ys) = writesOf xs @ writesOf ys"
  by (induction xs rule: writesOf.induct) auto

lemma requestsOf_append: "requestsOf (xs @ ys) = requestsOf xs @ requestsOf ys"
  by (induction xs rule: requestsOf.induct) auto

lemma errorsOf_append: "errorsOf (xs @ ys) = errorsOf xs @ errorsOf ys"
  by (induction xs rule: errorsOf.induct) auto

lemma chunkStream_append: "chunkStream (xs @ ys) = chunkStream xs @ chunkStream ys"
  by (simp add: chunkStream_def)

subsection \<open>One block\<close>

lemma processBlock_events: "list_all (loopEvent w) (fst (processBlock e cfg w n i b sz))"
  by (auto simp: processBlock_def Let_def split_beta streamChunks_events
           split: sum.splits option.splits)

lemma processBlock_errors: "errorsOf (fst (processBlock e cfg w n i b sz)) = []"
  by (auto simp: processBlock_def Let_def split_beta errorsOf_append streamChunks_quiet
           split: sum.splits option.splits)

lemma processBlock_progress:
  "progressOf (fst (processBlock e cfg w n i b sz))
     = (if snd (snd (processBlock e cfg w n i b sz)) = None \<and> \<not> skipped b
        then [percent (Suc i) n] else [])"
  by (auto simp: processBlock_def Let_def split_beta skipped_def progressOf_append
             streamChunks_quiet
           split: sum.splits option.splits)

lemma processBlock_requests:
  "requestsOf (fst (processBlock e cfg w n i b sz))
     = (if skipped b then [] else [(stripStageDirection (btext b), voiceName cfg (speaker b))])"
  by (auto simp: processBlock_def Let_def split_beta skipped_def requestsOf_append
             streamChunks_quiet
           split: sum.splits option.splits)

lemma processBlock_size:
  "fst (snd (processBlock e cfg True n i b sz))
     = sz + length (concat (writesOf (fst (processBlock e cfg True n i b sz))))"
  by (auto simp: processBlock_def Let_def split_beta writesOf_append
             streamChunks_size [symmetric]
           split: sum.splits option.splits)

lemma processBlock_mirror:
  "\<forall>i j. writeAudio_fails e i j = None
     \<Longrightarrow> processBlock e cfg False n i b sz
         = (case processBlock e cfg True n i b sz of (es, sz', x) \<Rightarrow> (map asChunk es, sz', x))"
  by (auto simp: processBlock_def Let_def split_beta streamChunks_mirror
           split: sum.splits option.splits)

lemma processBlock_served: "list_all (audioFrom (served e)) (fst (processBlock e cfg w n i b sz))"
proof (cases "generateContentStream e i (stripStageDirection (btext b)) (voiceName cfg (speaker b))")
  case (Inl msg)
  then show ?thesis
    by (simp add: processBlock_def Let_def)
next
  case (Inr answer)
  obtain chunks failure where answer: "answer = (chunks, failure)"
    by (cases answer)
  have "list_all (audioFrom (served e)) (fst (streamChunks e w i 0 chunks sz))"
    using streamChunks_decoded [of chunks e w i 0 sz]
  proof (rule audioFrom_mono)
    fix bs
    assume "\<exists>b64 bin. Some b64 \<in> set chunks \<and> atob e b64 = Inr bin \<and> bs = charCodes bin"
    then show "served e bs"
      unfolding served_def using Inr answer by blast
  qed
  then show ?thesis
    using Inr answer
    by (auto simp: processBlock_def Let_def split_beta split: option.splits)
qed

subsection \<open>The loop over the blocks\<close>

lemma blocksLoop_events: "list_all (loopEvent w) (fst (blocksLoop e cfg w n i bs sz))"
  by (induction bs arbitrary: i sz)
     (auto simp: split_beta processBlock_events split: option.splits)

lemma blocksLoop_errors: "errorsOf (fst (blocksLoop e cfg w n i bs sz)) = []"
  by (induction bs arbitrary: i sz)
     (auto simp: split_beta errorsOf_append processBlock_errors split: option.splits)

lemma blocksLoop_served: "list_all (audioFrom (served e)) (fst (blocksLoop e cfg w n i bs sz))"
  by (induction bs arbitrary: i sz)
     (auto simp: split_beta processBlock_served split: option.splits)

lemma blocksLoop_size:
  "fst (snd (blocksLoop e cfg True n i bs sz))
     = sz + length (concat (writesOf (fst (blocksLoop e cfg True n i bs sz))))"
proof (induction bs arbitrary: i sz)
  case Nil
  show ?case by simp
next
  case (Cons b bs)
  show ?case
    using processBlock_size [of e cfg n i b sz]
      Cons.IH [of "Suc i" "fst (snd (processBlock e cfg True n i b sz))"]
    by (auto simp: split_beta writesOf_append split: option.splits)
qed

lemma blocksLoop_mirror:
  "\<forall>i j. writeAudio_fails e i j = None
     \<Longrightarrow> blocksLoop e cfg False n i bs sz
         = (case blocksLoop e cfg True n i bs sz of (es, sz', x) \<Rightarrow> (map asChunk es, sz', x))"
  by (induction bs arbitrary: i sz)
     (auto simp: split_beta processBlock_mirror split: option.splits)

lemma blocksLoop_progress_sorted:
  "i + length bs \<le> n
     \<Longrightarrow> sorted (progressOf (fst (blocksLoop e cfg w n i bs sz)))
       \<and> (\<forall>p\<in>set (progressOf (fst (blocksLoop e cfg w n i bs sz))). percent (Suc i) n \<le> p)"
proof (induction bs arbitrary: i sz)
  case Nil
  show ?case by simp
next
  case (Cons b bs)
  have ih: "sorted (progressOf (fst (blocksLoop e cfg w n (Suc i) bs sz')))
      \<and> (\<forall>p\<in>set (progressOf (fst (blocksLoop e cfg w n (Suc i) bs sz'))). percent (Suc (Suc i)) n \<le> p)"
    for sz'
    using Cons.IH [of "Suc i" sz'] Cons.prems by simp
  have later: "percent (Suc i) n \<le> p"
    if "p \<in> set (progressOf (fst (blocksLoop e cfg w n (Suc i) bs sz')))" for p sz'
  proof -
    have "bs \<noteq> []"
      using that by (cases bs) auto
    then have "Suc (Suc i) \<le> n"
      using Cons.prems by (cases bs) auto
    then have "percent (Suc i) n \<le> percent (Suc (Suc i)) n"
      by (intro percent_mono) simp_all
    then show ?thesis
      using that ih [of sz'] by fastforce
  qed
  show ?case
    using ih later
    by (auto simp: split_beta progressOf_append processBlock_progress sorted_append
             split: option.splits)
qed

lemma blocksLoop_progress_complete:
  "snd (snd (blocksLoop e cfg w n i bs sz)) = None
     \<Longrightarrow> progressOf (fst (blocksLoop e cfg w n i bs sz))
         = map (\<lambda>(k, b). percent (Suc k) n) (filter (\<lambda>(k, b). \<not> skipped b) (enumerate i bs))"
  by (induction bs arbitrary: i sz)
     (auto simp: split_beta progressOf_append processBlock_progress split: option.splits)

lemma blocksLoop_requests_complete:
  "snd (snd (blocksLoop e cfg w n i bs sz)) = None
     \<Longrightarrow> requestsOf (fst (blocksLoop e cfg w n i bs sz))
         = map (\<lambda>b. (stripStageDirection (btext b), voiceName cfg (speaker b)))
             (filter (\<lambda>b. \<not> skipped b) bs)"
  by (induction bs arbitrary: i sz)
     (auto simp: split_beta requestsOf_append processBlock_requests split: option.splits)

lemma firstThrown_simps [simp]:
  "firstThrown [] = None"
  "firstThrown (None # xs) = firstThrown xs"
  "firstThrown (Some m # xs) = Some m"
  by (simp_all add: firstThrown_def)

lemma firstThrown_append:
  "firstThrown (xs @ ys) = (case firstThrown xs of Some m \<Rightarrow> Some m | None \<Rightarrow> firstThrown ys)"
  by (induction xs) (auto simp: firstThrown_def)

lemma streamChunks_thrown:
  "snd (snd (streamChunks e w i j cs sz))
     = firstThrown (map (\<lambda>(j, chunk). chunkThrows e w i j chunk) (enumerate j cs))"
  by (induction cs arbitrary: j sz)
     (auto simp: chunkThrows_def split_beta Let_def split: option.splits sum.splits)

lemma processBlock_thrown:
  "snd (snd (processBlock e cfg w n i b sz)) = (if skipped b then None else throwsA e cfg w i b)"
  using streamChunks_thrown [of e w i 0 _ sz]
  by (auto simp: processBlock_def throwsA_def skipped_def Let_def split_beta firstThrown_append
           split: sum.splits option.splits)

lemma blocksLoop_first_throw:
  "k < length bs
     \<Longrightarrow> \<forall>j<k. skipped (bs ! j) \<or> throwsA e cfg w (i + j) (bs ! j) = None
     \<Longrightarrow> \<not> skipped (bs ! k) \<Longrightarrow> throwsA e cfg w (i + k) (bs ! k) = Some msg
     \<Longrightarrow> snd (snd (blocksLoop e cfg w n i bs sz)) = Some msg
       \<and> requestsOf (fst (blocksLoop e cfg w n i bs sz))
           = map (\<lambda>b. (stripStageDirection (btext b), voiceName cfg (speaker b)))
               (filter (\<lambda>b. \<not> skipped b) (take (Suc k) bs))"
proof (induction bs arbitrary: i k sz)
  case Nil
  then show ?case by simp
next
  case (Cons b bs)
  show ?case
  proof (cases k)
    case 0
    then have "snd (snd (processBlock e cfg w n i b sz)) = Some msg"
      using Cons.prems by (simp add: processBlock_thrown)
    then show ?thesis
      using 0 Cons.prems(3) by (simp add: split_beta processBlock_requests)
  next
    case (Suc k')
    have first: "snd (snd (processBlock e cfg w n i b sz)) = None"
      using Cons.prems(2) [rule_format, of 0] Suc by (auto simp: processBlock_thrown)
    have before: "\<forall>j<k'. skipped (bs ! j) \<or> throwsA e cfg w (Suc i + j) (bs ! j) = None"
    proof (intro allI impI)
      fix j
      assume "j < k'"
      then show "skipped (bs ! j) \<or> throwsA e cfg w (Suc i + j) (bs ! j) = None"
        using Cons.prems(2) [rule_format, of "Suc j"] Suc by simp
    qed
    have rest: "snd (snd (blocksLoop e cfg w n (Suc i) bs sz')) = Some msg
       \<and> requestsOf (fst (blocksLoop e cfg w n (Suc i) bs sz'))
           = map (\<lambda>b. (stripStageDirection (btext b), voiceName cfg (speaker b)))
               (filter (\<lambda>b. \<not> skipped b) (take (Suc k') bs))" for sz'
      using Cons.IH [of k' "Suc i" sz'] Cons.prems Suc before by simp
    show ?thesis
      using first rest Suc
      by (simp add: split_beta requestsOf_append processBlock_requests)
  qed
qed


subsection \<open>part_000: one block and the loop\<close>

lemma deliverB_events:
  "list_all (loopEvent w) (fst (deliverB e w i a))"
  "progressOf (fst (deliverB e w i a)) = []"
  "requestsOf (fst (deliverB e w i a)) = []"
  "errorsOf (fst (deliverB e w i a)) = []"
  "list_all (\<lambda>ev. \<not> sinkEvent ev \<and> ev \<noteq> OnComplete) (fst (deliverB e w i a))"
  by (auto simp: deliverB_def split: option.splits sum.splits)

lemma served_by_answer:
  "generateContent e i t v = Inr a \<Longrightarrow> list_all (audioFrom (servedB e)) (fst (deliverB e w i a))"
  unfolding deliverB_def servedB_def
  by (auto split: option.splits sum.splits) blast+

subsection \<open>part_000: the block\<close>

lemma processBlockB_requests:
  "requestsOf (fst (processBlockB e cfg w n i b p))
     = (if skippedB b then [] else [(cleanTextForSpeech (btext b), voiceNameB cfg (speaker b))])"
  by (auto simp: processBlockB_def Let_def split_beta skippedB_def requestsOf_append deliverB_events
           split: sum.splits option.splits)

lemma processBlockB_served: "list_all (audioFrom (servedB e)) (fst (processBlockB e cfg w n i b p))"
  by (auto simp: processBlockB_def Let_def split_beta served_by_answer
           split: sum.splits option.splits)

lemma processBlockB_no_sink:
  "list_all (\<lambda>ev. \<not> sinkEvent ev \<and> ev \<noteq> OnComplete) (fst (processBlockB e cfg w n i b p))"
  by (auto simp: processBlockB_def Let_def split_beta deliverB_events
           split: sum.splits option.splits)

lemma processBlockB_outcome:
  "skippedB b \<Longrightarrow> processBlockB e cfg w n i b p = ([], p)"
  "\<not> skippedB b \<Longrightarrow> throwsB e cfg w i b
     \<Longrightarrow> snd (processBlockB e cfg w n i b p) = p
       \<and> progressOf (fst (processBlockB e cfg w n i b p)) = []
       \<and> errorsOf (fst (processBlockB e cfg w n i b p)) = [blockError p]"
  "\<not> skippedB b \<Longrightarrow> \<not> throwsB e cfg w i b
     \<Longrightarrow> snd (processBlockB e cfg w n i b p) = Suc p
       \<and> progressOf (fst (processBlockB e cfg w n i b p)) = [percent (Suc p) n]
       \<and> errorsOf (fst (processBlockB e cfg w n i b p)) = []"
  by (auto simp: processBlockB_def Let_def split_beta skippedB_def throwsB_def
             progressOf_append errorsOf_append deliverB_events
           split: sum.splits option.splits)


subsection \<open>part_000: the loop\<close>

lemma blocksLoopB_requests:
  "requestsOf (blocksLoopB e cfg w n i bs p)
     = map (\<lambda>b. (cleanTextForSpeech (btext b), voiceNameB cfg (speaker b)))
         (filter (\<lambda>b. \<not> skippedB b) bs)"
  by (induction bs arbitrary: i p)
     (auto simp: split_beta requestsOf_append processBlockB_requests)

lemma blocksLoopB_served: "list_all (audioFrom (servedB e)) (blocksLoopB e cfg w n i bs p)"
  by (induction bs arbitrary: i p) (auto simp: split_beta processBlockB_served)

lemma blocksLoopB_no_sink:
  "list_all (\<lambda>ev. \<not> sinkEvent ev \<and> ev \<noteq> OnComplete) (blocksLoopB e cfg w n i bs p)"
  by (induction bs arbitrary: i p) (auto simp: split_beta processBlockB_no_sink)

lemma blocksLoopB_counts:
  "length (errorsOf (blocksLoopB e cfg w n i bs p))
     = length (filter (\<lambda>(k, b). \<not> skippedB b \<and> throwsB e cfg w k b) (enumerate i bs))
   \<and> length (progressOf (blocksLoopB e cfg w n i bs p))
     = length (filter (\<lambda>(k, b). \<not> skippedB b \<and> \<not> throwsB e cfg w k b) (enumerate i bs))"
proof (induction bs arbitrary: i p)
  case Nil
  show ?case by simp
next
  case (Cons b bs)
  consider (skip) "skippedB b" | (throw) "\<not> skippedB b" "throwsB e cfg w i b"
    | (ok) "\<not> skippedB b" "\<not> throwsB e cfg w i b"
    by blast
  then show ?case
  proof cases
    case skip
    then show ?thesis
      using Cons.IH [of "Suc i" p] by (simp add: processBlockB_outcome(1))
  next
    case throw
    then show ?thesis
      using Cons.IH [of "Suc i" p] processBlockB_outcome(2) [of b e cfg w i n p]
      by (simp add: split_beta errorsOf_append progressOf_append)
  next
    case ok
    then show ?thesis
      using Cons.IH [of "Suc i" "Suc p"] processBlockB_outcome(3) [of b e cfg w i n p]
      by (simp add: split_beta errorsOf_append progressOf_append)
  qed
qed

lemma blocksLoopB_errors:
  "errorsOf (blocksLoopB e cfg w n i bs p)
     = map (\<lambda>(j, b). ''Error generating audio for block ''
              @ decimal (Suc (p + length (filter (\<lambda>(k, c). \<not> skippedB c \<and> \<not> throwsB e cfg w k c)
                                            (take (j - i) (enumerate i bs))))))
         (filter (\<lambda>(j, b). \<not> skippedB b \<and> throwsB e cfg w j b) (enumerate i bs))"
proof -
  define good where "good = (\<lambda>(k, c). \<not> skippedB c \<and> \<not> throwsB e cfg w k c)"
  define bad where "bad = (\<lambda>(j, b). \<not> skippedB b \<and> throwsB e cfg w j b)"
  define M where "M N = ''Error generating audio for block '' @ decimal (Suc N)" for N
  define G where "G i bs j = length (filter good (take (j - i) (enumerate i bs)))" for i bs j
  have M: "blockError p = M p" for p
    by (simp add: blockError_def M_def del: decimal.simps)
  have step: "G i (b # bs) j = length (filter good [(i, b)]) + G (Suc i) bs j" if "Suc i \<le> j" for i b bs j
  proof -
    have "j - i = Suc (j - Suc i)"
      using that by simp
    then show ?thesis
      by (simp add: G_def)
  qed
  have "errorsOf (blocksLoopB e cfg w n i bs p)
      = map (\<lambda>(j, c). M (p + G i bs j)) (filter bad (enumerate i bs))"
  proof (induction bs arbitrary: i p)
    case Nil
    show ?case by simp
  next
    case (Cons b bs)
    consider (skip) "skippedB b" | (throw) "\<not> skippedB b" "throwsB e cfg w i b"
      | (ok) "\<not> skippedB b" "\<not> throwsB e cfg w i b"
      by blast
    then show ?case
    proof cases
      case skip
      then have "\<not> good (i, b)" "\<not> bad (i, b)"
        by (simp_all add: good_def bad_def)
      then show ?thesis
        using skip Cons.IH [of "Suc i" p]
        by (auto simp add: processBlockB_outcome(1) split_beta step in_set_enumerate_eq)
    next
      case throw
      then have "\<not> good (i, b)" "bad (i, b)"
        by (simp_all add: good_def bad_def)
      moreover have "G i (b # bs) i = 0"
        by (simp add: G_def)
      ultimately show ?thesis
        using Cons.IH [of "Suc i" p] processBlockB_outcome(2) [of b e cfg w i n p] throw
        by (auto simp add: split_beta errorsOf_append M step in_set_enumerate_eq)
    next
      case ok
      then have "good (i, b)" "\<not> bad (i, b)"
        by (simp_all add: good_def bad_def)
      then show ?thesis
        using Cons.IH [of "Suc i" "Suc p"] processBlockB_outcome(3) [of b e cfg w i n p] ok
        by (auto simp add: split_beta errorsOf_append step in_set_enumerate_eq)
    qed
  qed
  then show ?thesis
    unfolding M_def G_def good_def bad_def .
qed

lemma blocksLoopB_progress:
  "progressOf (blocksLoopB e cfg w n i bs p)
     = map (\<lambda>k. percent (p + k) n) [1..<Suc (length (progressOf (blocksLoopB e cfg w n i bs p)))]"
proof (induction bs arbitrary: i p)
  case Nil
  show ?case by simp
next
  case (Cons b bs)
  consider (skip) "skippedB b" | (throw) "\<not> skippedB b" "throwsB e cfg w i b"
    | (ok) "\<not> skippedB b" "\<not> throwsB e cfg w i b"
    by blast
  then show ?case
  proof cases
    case skip
    then show ?thesis
      using Cons.IH [of "Suc i" p] by (simp add: processBlockB_outcome(1))
  next
    case throw
    then show ?thesis
      using Cons.IH [of "Suc i" p] processBlockB_outcome(2) [of b e cfg w i n p]
      by (simp add: split_beta progressOf_append)
  next
    case ok
    let ?rest = "progressOf (blocksLoopB e cfg w n (Suc i) bs (Suc p))"
    have whole: "progressOf (blocksLoopB e cfg w n i (b # bs) p) = percent (Suc p) n # ?rest"
      using ok processBlockB_outcome(3) [of b e cfg w i n p]
      by (simp add: split_beta progressOf_append)
    have "[1..<Suc (Suc (length ?rest))] = 1 # map Suc [1..<Suc (length ?rest)]"
      by (simp add: upt_conv_Cons map_Suc_upt del: upt_Suc)
    then have "map (\<lambda>k. percent (p + k) n) [1..<Suc (Suc (length ?rest))]
        = percent (Suc p) n # map (\<lambda>k. percent (Suc p + k) n) [1..<Suc (length ?rest)]"
      by (simp add: comp_def del: upt_Suc)
    also have "\<dots> = percent (Suc p) n # ?rest"
      using Cons.IH [of "Suc i" "Suc p"] by simp
    finally show ?thesis
      unfolding whole by simp
  qed
qed

lemma sorted_percent:
  "0 < p + a \<Longrightarrow> p + b \<le> Suc n \<Longrightarrow> sorted (map (\<lambda>k. percent (p + k) n) [a..<b])"
proof -
  assume range: "0 < p + a" "p + b \<le> Suc n"
  have "sorted_wrt (\<le>) [a..<b]"
    by simp
  then have "sorted_wrt (\<lambda>x y. percent (p + x) n \<le> percent (p + y) n) [a..<b]"
  proof (rule sorted_wrt_mono_rel [rotated])
    fix x y
    assume "x \<in> set [a..<b]" "y \<in> set [a..<b]" "x \<le> y"
    then show "percent (p + x) n \<le> percent (p + y) n"
      using range by (intro percent_mono) auto
  qed
  then show ?thesis
    by (simp add: sorted_map)
qed

lemma blocksLoopB_sorted:
  "p + length bs \<le> n \<Longrightarrow> sorted (progressOf (blocksLoopB e cfg w n i bs p))"
proof -
  assume range: "p + length bs \<le> n"
  let ?ps = "progressOf (blocksLoopB e cfg w n i bs p)"
  have "length ?ps \<le> length (enumerate i bs)"
    using blocksLoopB_counts [of e cfg w n i bs p] by (simp only: length_filter_le)
  then have "p + Suc (length ?ps) \<le> Suc n"
    using range by simp
  then have "sorted (map (\<lambda>k. percent (p + k) n) [1..<Suc (length ?ps)])"
    by (intro sorted_percent) simp
  then show ?thesis
    using blocksLoopB_progress [of e cfg w n i bs p] by metis
qed

subsection \<open>Opening and closing the file\<close>

lemma in_loop: "ev \<in> set (fst (blocksLoop e cfg w n i bs sz)) \<Longrightarrow> loopEvent w ev"
  using blocksLoop_events [of w e cfg n i bs sz] by (simp add: list_all_iff)

lemma loop_lacks:
  "OnComplete \<notin> set (fst (blocksLoop e cfg w n i bs sz))"
  "Warn \<notin> set (fst (blocksLoop e cfg w n i bs sz))"
  "Close \<notin> set (fst (blocksLoop e cfg w n i bs sz))"
  "OnError m \<notin> set (fst (blocksLoop e cfg w n i bs sz))"
  "Seek pos \<notin> set (fst (blocksLoop e cfg w n i bs sz))"
  using in_loop [of _ e cfg w n i bs sz] by fastforce+

lemma openSink_cases:
  "openSink e w = ([], None) \<and> \<not> w
   \<or> openSink e w = ([Write (createWavHeader e 0 1 24000 16)], None) \<and> w
        \<and> createWritable_fails e = None \<and> writePlaceholder_fails e = None
   \<or> (\<exists>msg. openSink e w = ([], Some msg)) \<and> w"
  by (auto simp: openSink_def split: option.splits)

lemma generateSpeech_progress:
  "progressOf (generateSpeech e text cfg w)
     = (if snd (openSink e w) = None
        then progressOf (fst (blocksLoop e cfg w (length (parseDialogueIntoChunks text)) 0
                                (parseDialogueIntoChunks text) 0))
        else [])"
  using openSink_cases [of e w]
  by (auto simp: generateSpeech_def finalizeFile_def Let_def split_beta progressOf_append
           split: option.splits)

lemma generateSpeech_completed:
  "OnComplete \<in> set (generateSpeech e text cfg w)
     \<Longrightarrow> snd (openSink e w) = None
       \<and> snd (snd (blocksLoop e cfg w (length (parseDialogueIntoChunks text)) 0
                      (parseDialogueIntoChunks text) 0)) = None"
  using openSink_cases [of e w]
  by (auto simp: generateSpeech_def finalizeFile_def Let_def split_beta loop_lacks
           split: option.splits)

lemma last_kept:
  "bs \<noteq> [] \<Longrightarrow> \<not> skipped (last bs)
     \<Longrightarrow> last (map (\<lambda>(k, b). f k) (filter (\<lambda>(k, b). \<not> skipped b) (enumerate i bs)))
         = f (i + length bs - 1)"
proof -
  assume "bs \<noteq> []" and keep: "\<not> skipped (last bs)"
  then obtain ys y where bs: "bs = ys @ [y]"
    by (cases bs rule: rev_cases) auto
  have "enumerate i bs = enumerate i ys @ [(i + length ys, y)]"
    unfolding bs by (simp add: enumerate_append_eq)
  then show ?thesis
    using keep bs by simp
qed



section \<open>Progress\<close>

text \<open>
  Claim C2, as it stands: \<^verbatim>\<open>onProgress\<close> is called once for every segment, the ones
  skipped as blank included, and the value for the last segment is 100. A block that is
  blank after cleaning takes the \<^verbatim>\<open>continue\<close> before the call: of the two blocks of
  the text below the second is a bare stage direction, and the only value reported is 50.
\<close>

theorem C2_counterexample:
  "length (parseDialogueIntoChunks (''Alice: Hi'' @ [CHR 0x0A] @ ''Bob: (pause)'')) = 2
   \<and> generateSpeech sampleEnv (''Alice: Hi'' @ [CHR 0x0A] @ ''Bob: (pause)'') None False
       = [Generate ''Hi'' ''Kore'', OnChunk [82, 73, 70, 70], OnProgress 50, OnComplete]"
  by (simp add: segmenter_defs pipeline_defs)


text \<open>
  Claim C2, amended. In both pipelines the values passed to \<^verbatim>\<open>onProgress\<close> never go
  down. In services/geminiService.ts a run that reaches \<^verbatim>\<open>onComplete\<close> has reported, for
  each block that is not blank after cleaning and in the order of the blocks, the rounded
  percentage of its position among all \<open>n\<close> blocks, and nothing for a blank one; so the last
  value is 100 when the last block is not blank. In part_000 the \<open>k\<close>-th call reports the
  rounded percentage of \<open>k\<close> in \<open>n\<close>, and there is one call for each block that is neither
  blank nor failing.
\<close>

theorem C2_progress:
  "sorted (progressOf (generateSpeech e text cfg w))
   \<and> (OnComplete \<in> set (generateSpeech e text cfg w) \<longrightarrow>
        progressOf (generateSpeech e text cfg w)
          = map (\<lambda>(k, b). percent (Suc k) (length (parseDialogueIntoChunks text)))
              (filter (\<lambda>(k, b). \<not> skipped b) (enumerate 0 (parseDialogueIntoChunks text))))
   \<and> (OnComplete \<in> set (generateSpeech e text cfg w) \<and> parseDialogueIntoChunks text \<noteq> []
        \<and> \<not> skipped (last (parseDialogueIntoChunks text)) \<longrightarrow>
        last (progressOf (generateSpeech e text cfg w)) = 100)
   \<and> sorted (progressOf (fst (generateSpeechB e text cfg w)))
   \<and> progressOf (fst (generateSpeechB e text cfg w))
        = map (\<lambda>k. percent k (length (parseDialogueIntoChunksB text)))
            [1..<Suc (length (progressOf (fst (generateSpeechB e text cfg w))))]
   \<and> ((w \<longrightarrow> createWritable_fails e = None) \<longrightarrow>
        length (progressOf (fst (generateSpeechB e text cfg w)))
          = length (filter (\<lambda>(k, b). \<not> skippedB b \<and> \<not> throwsB e cfg w k b)
                      (enumerate 0 (parseDialogueIntoChunksB text))))"
proof -
  let ?bs = "parseDialogueIntoChunks text" and ?run = "generateSpeech e text cfg w"
  let ?cs = "parseDialogueIntoChunksB text" and ?runB = "fst (generateSpeechB e text cfg w)"
  let ?loopB = "blocksLoopB e cfg w (length ?cs) 0 ?cs 0"
  have a1: "sorted (progressOf ?run)"
    using blocksLoop_progress_sorted [of 0 ?bs "length ?bs" e cfg w 0]
    by (simp add: generateSpeech_progress)
  have a2: "progressOf ?run
      = map (\<lambda>(k, b). percent (Suc k) (length ?bs)) (filter (\<lambda>(k, b). \<not> skipped b) (enumerate 0 ?bs))"
    if "OnComplete \<in> set ?run"
    using generateSpeech_completed [OF that]
      blocksLoop_progress_complete [of e cfg w "length ?bs" 0 ?bs 0]
    by (simp add: generateSpeech_progress)
  have a3: "last (progressOf ?run) = 100"
    if "OnComplete \<in> set ?run" "?bs \<noteq> []" "\<not> skipped (last ?bs)"
  proof -
    have "last (progressOf ?run) = percent (Suc (0 + length ?bs - 1)) (length ?bs)"
      unfolding a2 [OF that(1)]
      using last_kept [OF that(2,3), of "\<lambda>k. percent (Suc k) (length ?bs)" 0] by simp
    then show ?thesis
      using that(2) by (simp add: percent_full)
  qed
  have runB: "progressOf ?runB = progressOf ?loopB \<or> progressOf ?runB = [] \<and> w \<and> createWritable_fails e \<noteq> None"
    by (auto simp: generateSpeechB_def Let_def progressOf_append split: option.splits)
  have b1: "sorted (progressOf ?runB)"
    using runB blocksLoopB_sorted [of 0 ?cs "length ?cs" e cfg w 0] by auto
  have b2: "progressOf ?runB
      = map (\<lambda>k. percent k (length ?cs)) [1..<Suc (length (progressOf ?runB))]"
    using runB blocksLoopB_progress [of e cfg w "length ?cs" 0 ?cs 0] by auto
  have b3: "length (progressOf ?runB)
      = length (filter (\<lambda>(k, b). \<not> skippedB b \<and> \<not> throwsB e cfg w k b) (enumerate 0 ?cs))"
    if "w \<longrightarrow> createWritable_fails e = None"
    using runB that blocksLoopB_counts [of e cfg w "length ?cs" 0 ?cs 0] by auto
  show ?thesis
    using a1 a2 a3 b1 b2 b3 by blast
qed


theorem C2_progress_witness:
  "OnComplete \<in> set (generateSpeech sampleEnv (''Alice: Hi'' @ [CHR 0x0A] @ ''Bob: Yo'') None False)
   \<and> parseDialogueIntoChunks (''Alice: Hi'' @ [CHR 0x0A] @ ''Bob: Yo'') \<noteq> []
   \<and> \<not> skipped (last (parseDialogueIntoChunks (''Alice: Hi'' @ [CHR 0x0A] @ ''Bob: Yo'')))
   \<and> progressOf (generateSpeech sampleEnv (''Alice: Hi'' @ [CHR 0x0A] @ ''Bob: Yo'') None False) = [50, 100]
   \<and> last (progressOf (generateSpeech sampleEnv (''Alice: Hi'' @ [CHR 0x0A] @ ''Bob: Yo'') None False)) = 100
   \<and> progressOf (fst (generateSpeechB sampleEnv (''Alice: Hi'' @ [CHR 0x0A] @ ''Bob: Yo'') None False)) = [50, 100]"
proof -
  define T where "T = ''Alice: Hi'' @ [CHR 0x0A] @ ''Bob: Yo''"
  have blocks: "parseDialogueIntoChunks T
      = [\<lparr>speaker = ''Alice'', btext = ''Hi''\<rparr>, \<lparr>speaker = ''Bob'', btext = ''Yo''\<rparr>]"
    by (simp add: T_def segmenter_defs)
  have run: "generateSpeech sampleEnv T None False
      = [Generate ''Hi'' ''Kore'', OnChunk [82, 73, 70, 70], OnProgress 50,
         Generate ''Yo'' ''Kore'', OnChunk [82, 73, 70, 70], OnProgress 100, OnComplete]"
    by (simp add: T_def segmenter_defs pipeline_defs)
  have runB: "fst (generateSpeechB sampleEnv T None False)
      = [Generate ''Hi'' ''Aoede'', OnChunk [82, 73, 70, 70], OnProgress 50,
         Generate ''Yo'' ''Aoede'', OnChunk [82, 73, 70, 70], OnProgress 100, OnComplete]"
    by (simp add: T_def segmenter_defs pipeline_defs)
  have kept: "\<not> skipped (last (parseDialogueIntoChunks T))"
    by (simp add: blocks skipped_def stripStageDirection_def trim_def char_classes)
  have completes: "OnComplete \<in> set (generateSpeech sampleEnv T None False)"
    by (simp add: run)
  have nonempty: "parseDialogueIntoChunks T \<noteq> []"
    by (simp add: blocks)
  have hundred: "last (progressOf (generateSpeech sampleEnv T None False)) = 100"
    using C2_progress [of sampleEnv T None False] completes nonempty kept by blast
  have "progressOf (generateSpeech sampleEnv T None False) = [50, 100]"
    and "progressOf (fst (generateSpeechB sampleEnv T None False)) = [50, 100]"
    by (simp_all add: run runB)
  then show ?thesis
    using completes nonempty kept hundred unfolding T_def by blast
qed

section \<open>A request that fails\<close>

text \<open>
  Claim C1, as it stands: a failure of the request for one segment is caught for that
  segment, the run goes on with the next ones and ends with \<^verbatim>\<open>onComplete\<close>. In
  services/geminiService.ts the only handler is the one around the whole function: when
  the request for the first of two blocks is rejected, the error is reported, the second
  block is never asked for and \<^verbatim>\<open>onComplete\<close> is not called.
\<close>

theorem C1_counterexample:
  "generateSpeech flakyEnv (''Alice: Hi'' @ [CHR 0x0A] @ ''Bob: Yo'') None False
     = [Generate ''Hi'' ''Kore'', OnError ''quota exceeded'']"
  by (simp add: segmenter_defs pipeline_defs flakyEnv_def)


text \<open>
  Claim C1, amended. In part_000, when the stream can be opened and closed, the promise
  resolves and the run ends with \<^verbatim>\<open>onComplete\<close>, whatever fails in between; every block
  that is not blank after cleaning is requested, in order; and \<^verbatim>\<open>onError\<close> is called
  once for each of them whose request or answer throws, with the message
  \<^verbatim>\<open>Error generating audio for block N\<close>, \<open>N\<close> being one more than the number of blocks
  processed without failure before it. In services/geminiService.ts, when the stream has
  been opened, the first block \<open>k\<close> whose request is rejected or whose answer cannot be
  handled (the stream of chunks throws, a chunk cannot be decoded or written) ends the
  run: \<^verbatim>\<open>onComplete\<close> is not called, \<^verbatim>\<open>onError\<close> is called once, as the last thing done,
  with the message of the error, or with \<^verbatim>\<open>Audio generation failed\<close> when that is empty,
  and the blocks requested are the ones up to \<open>k\<close> that are not blank.
\<close>

theorem C1_segment_failure:
  "((w \<longrightarrow> createWritable_fails e = None \<and> close_fails e = None) \<longrightarrow>
      snd (generateSpeechB e text cfg w) = None
      \<and> last (fst (generateSpeechB e text cfg w)) = OnComplete
      \<and> requestsOf (fst (generateSpeechB e text cfg w))
          = map (\<lambda>b. (cleanTextForSpeech (btext b), voiceNameB cfg (speaker b)))
              (filter (\<lambda>b. \<not> skippedB b) (parseDialogueIntoChunksB text))
      \<and> errorsOf (fst (generateSpeechB e text cfg w))
          = map (\<lambda>(j, b). ''Error generating audio for block ''
                   @ decimal (Suc (length (filter (\<lambda>(k, c). \<not> skippedB c \<and> \<not> throwsB e cfg w k c)
                                             (take j (enumerate 0 (parseDialogueIntoChunksB text)))))))
              (filter (\<lambda>(j, b). \<not> skippedB b \<and> throwsB e cfg w j b)
                 (enumerate 0 (parseDialogueIntoChunksB text))))
   \<and> (k < length (parseDialogueIntoChunks text)
       \<and> (w \<longrightarrow> createWritable_fails e = None \<and> writePlaceholder_fails e = None)
       \<and> (\<forall>j<k. skipped (parseDialogueIntoChunks text ! j)
                 \<or> throwsA e cfg w j (parseDialogueIntoChunks text ! j) = None)
       \<and> \<not> skipped (parseDialogueIntoChunks text ! k)
       \<and> throwsA e cfg w k (parseDialogueIntoChunks text ! k) = Some msg \<longrightarrow>
        OnComplete \<notin> set (generateSpeech e text cfg w)
        \<and> errorsOf (generateSpeech e text cfg w)
            = [if msg = [] then ''Audio generation failed'' else msg]
        \<and> last (generateSpeech e text cfg w)
            = OnError (if msg = [] then ''Audio generation failed'' else msg)
        \<and> requestsOf (generateSpeech e text cfg w)
            = map (\<lambda>b. (stripStageDirection (btext b), voiceName cfg (speaker b)))
                (filter (\<lambda>b. \<not> skipped b) (take (Suc k) (parseDialogueIntoChunks text))))"
proof -
  let ?cs = "parseDialogueIntoChunksB text" and ?bs = "parseDialogueIntoChunks text"
  let ?loopB = "blocksLoopB e cfg w (length ?cs) 0 ?cs 0"
  let ?loop = "blocksLoop e cfg w (length ?bs) 0 ?bs 0"
  let ?m = "if msg = [] then ''Audio generation failed'' else msg"
  have partB: "snd (generateSpeechB e text cfg w) = None
      \<and> last (fst (generateSpeechB e text cfg w)) = OnComplete
      \<and> requestsOf (fst (generateSpeechB e text cfg w))
          = map (\<lambda>b. (cleanTextForSpeech (btext b), voiceNameB cfg (speaker b)))
              (filter (\<lambda>b. \<not> skippedB b) ?cs)
      \<and> errorsOf (fst (generateSpeechB e text cfg w))
          = map (\<lambda>(j, b). ''Error generating audio for block ''
                   @ decimal (Suc (length (filter (\<lambda>(k, c). \<not> skippedB c \<and> \<not> throwsB e cfg w k c)
                                             (take j (enumerate 0 ?cs))))))
              (filter (\<lambda>(j, b). \<not> skippedB b \<and> throwsB e cfg w j b) (enumerate 0 ?cs))"
    if "w \<longrightarrow> createWritable_fails e = None \<and> close_fails e = None"
  proof -
    have run: "generateSpeechB e text cfg w
        = (?loopB @ (if w then [Close, OnComplete] else [OnComplete]), None)"
      using that by (auto simp: generateSpeechB_def Let_def)
    have "errorsOf (fst (generateSpeechB e text cfg w)) = errorsOf ?loopB"
      and "requestsOf (fst (generateSpeechB e text cfg w)) = requestsOf ?loopB"
      and "last (fst (generateSpeechB e text cfg w)) = OnComplete"
      and "snd (generateSpeechB e text cfg w) = None"
      unfolding run by (simp_all add: errorsOf_append requestsOf_append)
    then show ?thesis
      using blocksLoopB_requests [of e cfg w "length ?cs" 0 ?cs 0]
        blocksLoopB_errors [of e cfg w "length ?cs" 0 ?cs 0]
      by (simp del: decimal.simps)
  qed
  have partA: "OnComplete \<notin> set (generateSpeech e text cfg w)
        \<and> errorsOf (generateSpeech e text cfg w) = [?m]
        \<and> last (generateSpeech e text cfg w) = OnError ?m
        \<and> requestsOf (generateSpeech e text cfg w)
            = map (\<lambda>b. (stripStageDirection (btext b), voiceName cfg (speaker b)))
                (filter (\<lambda>b. \<not> skipped b) (take (Suc k) ?bs))"
    if k: "k < length ?bs"
      and sink: "w \<longrightarrow> createWritable_fails e = None \<and> writePlaceholder_fails e = None"
      and before: "\<forall>j<k. skipped (?bs ! j) \<or> throwsA e cfg w j (?bs ! j) = None"
      and here: "\<not> skipped (?bs ! k)" "throwsA e cfg w k (?bs ! k) = Some msg"
  proof -
    have loop: "snd (snd ?loop) = Some msg"
      "requestsOf (fst ?loop)
         = map (\<lambda>b. (stripStageDirection (btext b), voiceName cfg (speaker b)))
             (filter (\<lambda>b. \<not> skipped b) (take (Suc k) ?bs))"
      using blocksLoop_first_throw [of k ?bs e cfg w 0 msg "length ?bs" 0] k before here
      by simp_all
    obtain es0 where opened: "openSink e w = (es0, None)" "requestsOf es0 = []" "errorsOf es0 = []"
        "OnComplete \<notin> set es0"
      using sink by (cases w) (auto simp: openSink_def)
    have run: "generateSpeech e text cfg w = es0 @ fst ?loop @ [OnError ?m]"
      using opened(1) loop(1) by (simp add: generateSpeech_def split_beta Let_def errorMessage_def)
    show ?thesis
      unfolding run using loop(2) opened(2,3,4)
      by (simp add: errorsOf_append requestsOf_append blocksLoop_errors loop_lacks)
  qed
  show ?thesis
    using partA partB by blast
qed


theorem C1_segment_failure_witness:
  "createWritable_fails garbledEnv = None \<and> writePlaceholder_fails garbledEnv = None
   \<and> close_fails garbledEnv = None
   \<and> parseDialogueIntoChunks (''Alice: Hi'' @ [CHR 0x0A] @ ''Bob: Yo'')
       = [\<lparr>speaker = ''Alice'', btext = ''Hi''\<rparr>, \<lparr>speaker = ''Bob'', btext = ''Yo''\<rparr>]
   \<and> throwsA garbledEnv None True 0 \<lparr>speaker = ''Alice'', btext = ''Hi''\<rparr> = None
   \<and> throwsA garbledEnv None True 1 \<lparr>speaker = ''Bob'', btext = ''Yo''\<rparr>
       = Some ''The string to be decoded is not correctly encoded.''
   \<and> generateSpeech garbledEnv (''Alice: Hi'' @ [CHR 0x0A] @ ''Bob: Yo'') None True
       = [Write (replicate 40 0 @ [0, 0, 0, 0]), Generate ''Hi'' ''Kore'', Write [82, 73, 70, 70],
          OnProgress 50, Generate ''Yo'' ''Kore'',
          OnError ''The string to be decoded is not correctly encoded.'']
   \<and> generateSpeechB garbledEnv (''Alice: Hi'' @ [CHR 0x0A] @ ''Bob: Yo'') None True
       = ([Generate ''Hi'' ''Aoede'', Write [82, 73, 70, 70], OnProgress 50, Generate ''Yo'' ''Aoede'',
           OnError ''Error generating audio for block 2'', Close, OnComplete], None)
   \<and> errorsOf (generateSpeech garbledEnv (''Alice: Hi'' @ [CHR 0x0A] @ ''Bob: Yo'') None True)
       = [''The string to be decoded is not correctly encoded.'']
   \<and> last (fst (generateSpeechB garbledEnv (''Alice: Hi'' @ [CHR 0x0A] @ ''Bob: Yo'') None True))
       = OnComplete"
proof -
  define T where "T = ''Alice: Hi'' @ [CHR 0x0A] @ ''Bob: Yo''"
  let ?msg = "''The string to be decoded is not correctly encoded.''"
  have blocks: "parseDialogueIntoChunks T
      = [\<lparr>speaker = ''Alice'', btext = ''Hi''\<rparr>, \<lparr>speaker = ''Bob'', btext = ''Yo''\<rparr>]"
    by (simp add: T_def segmenter_defs)
  have sink: "createWritable_fails garbledEnv = None" "writePlaceholder_fails garbledEnv = None"
    "close_fails garbledEnv = None"
    by (simp_all add: garbledEnv_def sampleEnv_def)
  have kept: "\<not> skipped \<lparr>speaker = ''Alice'', btext = ''Hi''\<rparr>" "\<not> skipped \<lparr>speaker = ''Bob'', btext = ''Yo''\<rparr>"
    by (simp_all add: skipped_def stripStageDirection_def trim_def char_classes)
  have throws: "throwsA garbledEnv None True 0 \<lparr>speaker = ''Alice'', btext = ''Hi''\<rparr> = None"
    "throwsA garbledEnv None True 1 \<lparr>speaker = ''Bob'', btext = ''Yo''\<rparr> = Some ?msg"
    by (simp_all add: throwsA_def chunkThrows_def garbledEnv_def sampleEnv_def)
  have hypA: "1 < length (parseDialogueIntoChunks T)
       \<and> (True \<longrightarrow> createWritable_fails garbledEnv = None \<and> writePlaceholder_fails garbledEnv = None)
       \<and> (\<forall>j<1. skipped (parseDialogueIntoChunks T ! j)
                 \<or> throwsA garbledEnv None True j (parseDialogueIntoChunks T ! j) = None)
       \<and> \<not> skipped (parseDialogueIntoChunks T ! 1)
       \<and> throwsA garbledEnv None True 1 (parseDialogueIntoChunks T ! 1) = Some ?msg"
    using sink kept throws by (simp add: blocks)
  have hypB: "True \<longrightarrow> createWritable_fails garbledEnv = None \<and> close_fails garbledEnv = None"
    using sink by simp
  note claim = C1_segment_failure [of True garbledEnv T None 1 ?msg]
  have "errorsOf (generateSpeech garbledEnv T None True)
      = [if ?msg = [] then ''Audio generation failed'' else ?msg]"
    using claim hypA by blast
  then have partA: "errorsOf (generateSpeech garbledEnv T None True) = [?msg]"
    by simp
  have partB: "last (fst (generateSpeechB garbledEnv T None True)) = OnComplete"
    using claim hypB by blast
  have run: "generateSpeech garbledEnv T None True
       = [Write (replicate 40 0 @ [0, 0, 0, 0]), Generate ''Hi'' ''Kore'', Write [82, 73, 70, 70],
          OnProgress 50, Generate ''Yo'' ''Kore'', OnError ?msg]"
    by (simp add: T_def segmenter_defs pipeline_defs garbledEnv_def)
  have runB: "generateSpeechB garbledEnv T None True
       = ([Generate ''Hi'' ''Aoede'', Write [82, 73, 70, 70], OnProgress 50, Generate ''Yo'' ''Aoede'',
           OnError ''Error generating audio for block 2'', Close, OnComplete], None)"
    by (simp add: T_def segmenter_defs pipeline_defs garbledEnv_def)
  show ?thesis
    using sink blocks throws partA partB run runB unfolding T_def [symmetric] by simp
qed


subsection \<open>The bytes of the file\<close>

lemma sink_after_loop:
  "list_all (loopEvent True) es
     \<Longrightarrow> foldl sinkStep (c, length c) es
         = (c @ concat (writesOf es), length c + length (concat (writesOf es)))"
proof (induction es arbitrary: c)
  case Nil
  show ?case by simp
next
  case (Cons ev es)
  then show ?case
    using Cons.IH [of "c @ (case ev of Write bs \<Rightarrow> bs | _ \<Rightarrow> [])"]
    by (cases ev) auto
qed

lemma file_after_loop:
  "list_all (loopEvent True) es
     \<Longrightarrow> foldl sinkStep ([], 0) (Write h # es)
         = (h @ concat (writesOf es), length h + length (concat (writesOf es)))"
  using sink_after_loop [of es h] by simp

lemma chunks_of_writes:
  "list_all (loopEvent True) es \<Longrightarrow> chunkStream (map asChunk es) = concat (writesOf es)"
proof (induction es)
  case Nil
  show ?case by (simp add: chunkStream_def)
next
  case (Cons ev es)
  then show ?case by (cases ev) (auto simp: chunkStream_def)
qed

lemma callbacks_leave_file:
  "foldl sinkStep st [OnComplete] = st" "foldl sinkStep st [OnError m] = st"
  by (cases st; simp)+

lemma file_after_finalize:
  assumes "length (createWavHeader e sz 1 24000 16) = length h"
    and "rest = [OnComplete] \<or> (\<exists>m. rest = [OnError m])"
  shows "drop (length h) (fst (foldl sinkStep (h @ P, c) (fst (finalizeFile e sz) @ rest))) = P"
  using assms by (auto simp: finalizeFile_def Let_def split: option.splits)


section \<open>The header\<close>

text \<open>
  Claim C7, as it stands: every successful run with a sink writes the header twice.
  The pipeline of part_000 writes to its stream the audio only: it has no header at all.
\<close>

theorem C7_counterexample:
  "generateSpeechB sampleEnv ''Alice: Hi'' None True
     = ([Generate ''Hi'' ''Aoede'', Write [82, 73, 70, 70], OnProgress 100, Close, OnComplete], None)"
  by (simp add: segmenter_defs pipeline_defs)


text \<open>
  Claim C7, amended. In services/geminiService.ts a run with a file handle that reaches
  \<^verbatim>\<open>onComplete\<close> without a warning consists of the write of the placeholder header for
  size 0, then the loop over the blocks, which writes nothing but decoded audio and never
  seeks, then the seek to 0, the write of the header for the number of audio bytes written
  in between, the close and \<^verbatim>\<open>onComplete\<close>. In part_000 every write of a run is
  decoded audio, and no run seeks.
\<close>

theorem C7_header:
  "(OnComplete \<in> set (generateSpeech e text cfg True) \<and> Warn \<notin> set (generateSpeech e text cfg True) \<longrightarrow>
      (let es = fst (blocksLoop e cfg True (length (parseDialogueIntoChunks text)) 0
                       (parseDialogueIntoChunks text) 0)
       in generateSpeech e text cfg True
            = Write (createWavHeader e 0 1 24000 16) # es
                @ [Seek 0, Write (createWavHeader e (length (concat (writesOf es))) 1 24000 16),
                   Close, OnComplete]
          \<and> list_all (loopEvent True) es \<and> list_all (audioFrom (served e)) es))
   \<and> list_all (audioFrom (servedB e)) (fst (generateSpeechB e text cfg True))
   \<and> list_all (\<lambda>ev. \<forall>pos. ev \<noteq> Seek pos) (fst (generateSpeechB e text cfg True))"
proof -
  let ?bs = "parseDialogueIntoChunks text" and ?cs = "parseDialogueIntoChunksB text"
  let ?loop = "blocksLoop e cfg True (length ?bs) 0 ?bs 0"
  let ?run = "generateSpeech e text cfg True"
  have partA: "?run = Write (createWavHeader e 0 1 24000 16) # fst ?loop
                @ [Seek 0, Write (createWavHeader e (length (concat (writesOf (fst ?loop)))) 1 24000 16),
                   Close, OnComplete]"
    if ok: "OnComplete \<in> set ?run" "Warn \<notin> set ?run"
  proof -
    have opened: "openSink e True = ([Write (createWavHeader e 0 1 24000 16)], None)"
      and looped: "snd (snd ?loop) = None"
      using generateSpeech_completed [OF ok(1)] openSink_cases [of e True] by auto
    have size: "fst (snd ?loop) = length (concat (writesOf (fst ?loop)))"
      using blocksLoop_size [of e cfg "length ?bs" 0 ?bs 0] by simp
    show ?thesis
      using ok opened looped size
      by (auto simp: generateSpeech_def finalizeFile_def Let_def split_beta loop_lacks
               split: option.splits)
  qed
  have noSeek: "list_all (\<lambda>ev. \<forall>pos. ev \<noteq> Seek pos) es"
    if "list_all (\<lambda>ev. \<not> sinkEvent ev \<and> ev \<noteq> OnComplete) es" for es
    using that by (induction es) auto
  have partB: "list_all (audioFrom (servedB e)) (fst (generateSpeechB e text cfg True))
      \<and> list_all (\<lambda>ev. \<forall>pos. ev \<noteq> Seek pos) (fst (generateSpeechB e text cfg True))"
    using blocksLoopB_served [of e cfg True "length ?cs" 0 ?cs 0]
      noSeek [OF blocksLoopB_no_sink [of e cfg True "length ?cs" 0 ?cs 0]]
    by (auto simp: generateSpeechB_def Let_def split: option.splits)
  show ?thesis
    using partA partB blocksLoop_events [of True e cfg "length ?bs" 0 ?bs 0]
      blocksLoop_served [of e cfg True "length ?bs" 0 ?bs 0]
    by (simp add: Let_def)
qed



theorem C7_header_witness:
  "OnComplete \<in> set (generateSpeech sampleEnv ''Alice: Hi'' None True)
   \<and> Warn \<notin> set (generateSpeech sampleEnv ''Alice: Hi'' None True)
   \<and> generateSpeech sampleEnv ''Alice: Hi'' None True
       = [Write (replicate 40 0 @ [0, 0, 0, 0]), Generate ''Hi'' ''Kore'', Write [82, 73, 70, 70],
          OnProgress 100, Seek 0, Write (replicate 40 0 @ [4, 0, 0, 0]), Close, OnComplete]"
proof -
  have run: "generateSpeech sampleEnv ''Alice: Hi'' None True
       = [Write (replicate 40 0 @ [0, 0, 0, 0]), Generate ''Hi'' ''Kore'', Write [82, 73, 70, 70],
          OnProgress 100, Seek 0, Write (replicate 40 0 @ [4, 0, 0, 0]), Close, OnComplete]"
    by (simp add: segmenter_defs pipeline_defs)
  have ok: "OnComplete \<in> set (generateSpeech sampleEnv ''Alice: Hi'' None True)
      \<and> Warn \<notin> set (generateSpeech sampleEnv ''Alice: Hi'' None True)"
    unfolding run by simp
  have "\<exists>es. generateSpeech sampleEnv ''Alice: Hi'' None True
       = Write (createWavHeader sampleEnv 0 1 24000 16) # es
           @ [Seek 0, Write (createWavHeader sampleEnv (length (concat (writesOf es))) 1 24000 16),
              Close, OnComplete]"
    using C7_header [of sampleEnv "''Alice: Hi''" None] ok by (metis (no_types))
  then show ?thesis
    using ok run by simp
qed

section \<open>A header that cannot be rewritten\<close>




section \<open>Audio handed to the caller\<close>

text \<open>
  Claim C10: without a file handle every byte array passed to \<^verbatim>\<open>onChunk\<close> is decoded
  audio of the model, no header is ever passed, and the bytes passed, one call after the
  other, are the contents of the file of the run with a file handle without its header.
  For the comparison the same environment serves both runs, its stream opens and takes
  every audio write, and its headers all have the length of the placeholder.
\<close>

theorem C10_chunks_are_audio:
  "list_all (audioFrom (served e)) (generateSpeech e text cfg False)
   \<and> writesOf (generateSpeech e text cfg False) = []
   \<and> list_all (\<lambda>ev. \<not> sinkEvent ev) (generateSpeech e text cfg False)
   \<and> (createWritable_fails e = None \<and> writePlaceholder_fails e = None
        \<and> (\<forall>i j. writeAudio_fails e i j = None)
        \<and> (\<forall>n. length (createWavHeader e n 1 24000 16) = length (createWavHeader e 0 1 24000 16))
       \<longrightarrow> chunkStream (generateSpeech e text cfg False)
           = drop (length (createWavHeader e 0 1 24000 16))
               (fileContents (generateSpeech e text cfg True)))"
proof -
  let ?bs = "parseDialogueIntoChunks text"
  let ?loopF = "blocksLoop e cfg False (length ?bs) 0 ?bs 0"
  let ?loopT = "blocksLoop e cfg True (length ?bs) 0 ?bs 0"
  let ?h = "createWavHeader e 0 1 24000 16"
  have runF: "\<exists>ending. generateSpeech e text cfg False = fst ?loopF @ [ending]
      \<and> (ending = OnComplete \<or> (\<exists>m. ending = OnError m))"
    by (auto simp: generateSpeech_def openSink_def Let_def split_beta split: option.splits)
  then obtain ending where runF': "generateSpeech e text cfg False = fst ?loopF @ [ending]"
    and ending: "ending = OnComplete \<or> (\<exists>m. ending = OnError m)"
    by blast
  have evF: "list_all (loopEvent False) (fst ?loopF)"
    by (rule blocksLoop_events)
  have plain: "writesOf es = [] \<and> list_all (\<lambda>ev. \<not> sinkEvent ev) es"
    if "list_all (loopEvent False) es" for es
    using that
  proof (induction es)
    case Nil
    show ?case by simp
  next
    case (Cons ev es)
    then show ?case by (cases ev) auto
  qed
  have a: "list_all (audioFrom (served e)) (generateSpeech e text cfg False)"
    unfolding runF' using ending blocksLoop_served [of e cfg False "length ?bs" 0 ?bs 0] by auto
  have b: "writesOf (generateSpeech e text cfg False) = []
      \<and> list_all (\<lambda>ev. \<not> sinkEvent ev) (generateSpeech e text cfg False)"
    unfolding runF' using ending plain [OF evF] by (auto simp: writesOf_append)
  have c: "chunkStream (generateSpeech e text cfg False)
      = drop (length ?h) (fileContents (generateSpeech e text cfg True))"
    if sink: "createWritable_fails e = None" "writePlaceholder_fails e = None"
      "\<forall>i j. writeAudio_fails e i j = None"
      "\<forall>n. length (createWavHeader e n 1 24000 16) = length ?h"
  proof -
    have mirror: "?loopF = (map asChunk (fst ?loopT), fst (snd ?loopT), snd (snd ?loopT))"
      using blocksLoop_mirror [OF sink(3), of cfg "length ?bs" 0 ?bs 0] by (simp add: split_beta)
    have evT: "list_all (loopEvent True) (fst ?loopT)"
      by (rule blocksLoop_events)
    have heard: "chunkStream (generateSpeech e text cfg False) = concat (writesOf (fst ?loopT))"
      unfolding runF' using ending mirror chunks_of_writes [OF evT]
      by (auto simp: chunkStream_append) (simp_all add: chunkStream_def)
    have state: "foldl sinkStep ([], 0) (Write ?h # fst ?loopT)
        = (?h @ concat (writesOf (fst ?loopT)), length ?h + length (concat (writesOf (fst ?loopT))))"
      by (rule file_after_loop) (rule evT)
    have "\<exists>tail. generateSpeech e text cfg True = (Write ?h # fst ?loopT) @ tail
        \<and> ((\<exists>m. tail = [OnError m])
            \<or> (\<exists>rest. tail = fst (finalizeFile e (fst (snd ?loopT))) @ rest
                  \<and> (rest = [OnComplete] \<or> (\<exists>m. rest = [OnError m]))))"
      using sink(1,2)
      by (auto simp: generateSpeech_def openSink_def Let_def split_beta split: option.splits)
    then obtain tail where runT: "generateSpeech e text cfg True = (Write ?h # fst ?loopT) @ tail"
      and tail: "(\<exists>m. tail = [OnError m])
            \<or> (\<exists>rest. tail = fst (finalizeFile e (fst (snd ?loopT))) @ rest
                  \<and> (rest = [OnComplete] \<or> (\<exists>m. rest = [OnError m])))"
      by blast
    define P where "P = concat (writesOf (fst ?loopT))"
    define c where "c = length ?h + length P"
    have "fileContents (generateSpeech e text cfg True) = fst (foldl sinkStep (?h @ P, c) tail)"
      unfolding runT fileContents_def foldl_append state P_def c_def ..
    moreover have "drop (length ?h) (fst (foldl sinkStep (?h @ P, c) tail)) = P"
    proof -
      consider (err) m where "tail = [OnError m]"
        | (fin) rest where "tail = fst (finalizeFile e (fst (snd ?loopT))) @ rest"
            "rest = [OnComplete] \<or> (\<exists>m. rest = [OnError m])"
        using tail by blast
      then show ?thesis
      proof cases
        case err
        then show ?thesis by simp
      next
        case fin
        show ?thesis
          unfolding fin(1) using sink(4) fin(2) by (intro file_after_finalize) auto
      qed
    qed
    ultimately have "drop (length ?h) (fileContents (generateSpeech e text cfg True))
        = concat (writesOf (fst ?loopT))"
      by (simp add: P_def)
    then show ?thesis
      using heard by simp
  qed
  show ?thesis
    using a b c by blast
qed


theorem C10_chunks_are_audio_witness:
  "createWritable_fails sampleEnv = None \<and> writePlaceholder_fails sampleEnv = None
   \<and> (\<forall>i j. writeAudio_fails sampleEnv i j = None)
   \<and> (\<forall>n. length (createWavHeader sampleEnv n 1 24000 16) = 44)
   \<and> chunkStream (generateSpeech sampleEnv ''Alice: Hi'' None False) = [82, 73, 70, 70]
   \<and> chunkStream (generateSpeech sampleEnv ''Alice: Hi'' None False)
       = drop 44 (fileContents (generateSpeech sampleEnv ''Alice: Hi'' None True))"
proof -
  have env: "createWritable_fails sampleEnv = None \<and> writePlaceholder_fails sampleEnv = None
      \<and> (\<forall>i j. writeAudio_fails sampleEnv i j = None)
      \<and> (\<forall>n. length (createWavHeader sampleEnv n 1 24000 16)
             = length (createWavHeader sampleEnv 0 1 24000 16))"
    by (simp add: sampleEnv_def)
  have size: "length (createWavHeader sampleEnv n 1 24000 16) = 44" for n
    by (simp add: sampleEnv_def)
  have same: "chunkStream (generateSpeech sampleEnv ''Alice: Hi'' None False)
      = drop (length (createWavHeader sampleEnv 0 1 24000 16))
          (fileContents (generateSpeech sampleEnv ''Alice: Hi'' None True))"
    using C10_chunks_are_audio [of sampleEnv "''Alice: Hi''" None] env by blast
  have heard: "chunkStream (generateSpeech sampleEnv ''Alice: Hi'' None False) = [82, 73, 70, 70]"
    by (simp add: segmenter_defs pipeline_defs chunkStream_def)
  show ?thesis
    using env same heard size by simp
qed

end
